theory Spec2Isabelle
  imports Complex_Main "HOL-Library.Word" "HOL-Library.Log_Nat" "HOL-Library.Multiset"
begin

section \<open>Errors and common data\<close>

text \<open>
  The exceptions the Python code can raise, as values. An \<open>AssertionError\<close> carries the
  message of the \<open>assert\<close> statement (empty when the statement has none).
\<close>

datatype error =
    AssertionError string
  | ValueError string
  | ZeroDivisionError
  | OverflowError

type_synonym point = "rat \<times> rat"

text \<open>
  Markup objects. Modelled from the spec: the module \<open>data_markup\<close> is not among the
  sources; the spec describes a plain markup as a flat coordinate sequence and a classified
  markup as the same plus an integer class id numbered from zero.
\<close>

datatype markup =
    ObjectMarkup "rat list"
  | ClassifiedObjectMarkup "rat list" nat

fun bbox :: "markup \<Rightarrow> rat list" where
  "bbox (ObjectMarkup b) = b"
| "bbox (ClassifiedObjectMarkup b t) = b"

fun object_type :: "markup \<Rightarrow> nat option" where
  "object_type (ObjectMarkup b) = None"
| "object_type (ClassifiedObjectMarkup b t) = Some t"

text \<open>
  The network configuration. Modelled from the spec: the class is not among the sources;
  the spec lists the five methods the code calls, which become the fields of a record.
\<close>

record net_config =
  get_scale :: int
  get_side_multiple :: int
  get_max_side :: int
  is_classification_supported :: bool
  get_class_name :: "nat option \<Rightarrow> string"

text \<open>
  A Pillow image: its size as (width, height) and its pixels as rows of values. Only the
  size of an input image is read; a segmentation map has mode \<open>L\<close>, one byte a pixel.
\<close>

record image =
  image_size :: "nat \<times> nat"
  image_rows :: "nat list list"

section \<open>utils.fix_quadrangle\<close>

text \<open>
  The validity test and the convex hull are shapely's; they are parameters of the model.
  \<open>is_valid\<close> is \<open>Polygon(quad).is_valid\<close>, \<open>hull_exterior\<close> is
  \<open>MultiPoint(quad).convex_hull.exterior.coords\<close>, which fails when the hull is not a
  polygon. The result pairs the lines logged with the value returned.
\<close>

record shapely =
  is_valid :: "point list \<Rightarrow> bool"
  hull_exterior :: "point list \<Rightarrow> error + point list"

definition fix_quadrangle :: "shapely \<Rightarrow> point list \<Rightarrow> string list \<times> (error + point list)" where
  "fix_quadrangle sh quad =
     (if \<not> is_valid sh quad then
        (case hull_exterior sh quad of
           Inl e \<Rightarrow> ([''polygon invalid''], Inl e)
         | Inr coords \<Rightarrow> ([''polygon invalid''], Inr (take 4 coords)))
      else ([], Inr quad))"

section \<open>utils.get_contours_and_boxes\<close>

text \<open>
  The four OpenCV calls are parameters (\<open>findContours\<close> with the three results of
  OpenCV 3, of which the code keeps the second). The raster is first converted to unsigned bytes
  (\<open>np.array(seg_map, dtype=np.uint8)\<close>), which keeps the low eight bits of an integer.
  \<open>boxPoints\<close> always yields four corners, so its result is a quadruple and the reshape to
  eight numbers cannot fail.
\<close>

type_synonym contour = "(int \<times> int) list"
type_synonym rotated_rect = "point \<times> point \<times> rat"

record cv2 =
  findContours :: "8 word list list \<Rightarrow> contour list"
  contourArea :: "contour \<Rightarrow> rat"
  minAreaRect :: "contour \<Rightarrow> rotated_rect"
  boxPoints :: "rotated_rect \<Rightarrow> point \<times> point \<times> point \<times> point"

definition to_uint8 :: "int list list \<Rightarrow> 8 word list list" where
  "to_uint8 seg_map = map (map word_of_int) seg_map"

fun reshape8 :: "point \<times> point \<times> point \<times> point \<Rightarrow> rat list" where
  "reshape8 ((x1, y1), (x2, y2), (x3, y3), (x4, y4)) = [x1, y1, x2, y2, x3, y3, x4, y4]"

definition get_contours_and_boxes :: "cv2 \<Rightarrow> int list list \<Rightarrow> rat \<Rightarrow> contour list \<times> rat list list" where
  "get_contours_and_boxes cv seg_map min_area =
     (let cnts = findContours cv (to_uint8 seg_map);
          cnts = filter (\<lambda>cnt. contourArea cv cnt > min_area) cnts;
          rects = map (minAreaRect cv) cnts;
          boxes = map (\<lambda>rect. reshape8 (boxPoints cv rect)) rects
      in (cnts, boxes))"

section \<open>utils.extract_bboxes_and_object_types\<close>

text \<open>
  A call returns the boxes and either no types at all, the class ids, or the class names.
\<close>

datatype obj_types = TypeIds "nat option list" | TypeNames "string list"

definition extract_bboxes_and_object_types ::
  "markup list \<Rightarrow> net_config \<Rightarrow> string \<Rightarrow> error + (rat list list \<times> obj_types option)" where
  "extract_bboxes_and_object_types image_markup net_config object_types_format =
     (let bboxes = map bbox image_markup in
      if is_classification_supported net_config then
        (if object_types_format = ''id'' then
           Inr (bboxes, Some (TypeIds (map object_type image_markup)))
         else if object_types_format = ''name'' then
           Inr (bboxes, Some (TypeNames (map (\<lambda>m. get_class_name net_config (object_type m)) image_markup)))
         else Inl (ValueError ''Unsupported object type format''))
      else Inr (bboxes, None))"

section \<open>Floating-point numbers\<close>

text \<open>
  A finite float64 value is the rational number it denotes. \<open>fl64\<close> rounds a rational
  to the nearest float64, ties to the even significand: 53 significant bits, and below
  \<open>2 powi (-1022)\<close> the fixed spacing \<open>2 powi emin\<close> of the subnormal numbers. It is
  the rounding of every IEEE 754 operation, of Python's conversion of an integer to a
  float and of Python's true division of two integers. A rounded magnitude of
  \<open>2 ^ 1024\<close> or more is an overflow. Infinities and NaN are not values of the model:
  coordinates are finite, and where an operation of the code overflows the model says
  what the code then does.
\<close>

definition ilog2 :: "rat \<Rightarrow> int" where
  "ilog2 x = (case quotient_of x of (p, q) \<Rightarrow>
      let g = bitlen p - bitlen q in if 2 powi g \<le> x then g else g - 1)"

definition round_half_even :: "rat \<Rightarrow> int" where
  "round_half_even x = (let f = \<lfloor>x\<rfloor>; r = x - of_int f in
       if r < 1 / 2 then f else if r > 1 / 2 then f + 1 else if even f then f else f + 1)"

definition emin :: int where
  "emin = - 1074"

definition fl64 :: "rat \<Rightarrow> rat" where
  "fl64 x = (if x = 0 then 0 else
      let e = max (ilog2 \<bar>x\<bar> - 52) emin
      in of_int (round_half_even (x / 2 powi e)) * 2 powi e)"

definition finite64 :: "rat \<Rightarrow> bool" where
  "finite64 x = (\<bar>fl64 x\<bar> < 2 ^ 1024)"

text \<open>Python: \<open>float(n)\<close> for an integer, implicit in mixed arithmetic.\<close>

definition float_of_int :: "int \<Rightarrow> error + rat" where
  "float_of_int n = (if finite64 (of_int n) then Inr (fl64 (of_int n)) else Inl OverflowError)"

text \<open>Python: \<open>a / b\<close> on two integers.\<close>

definition int_truediv :: "int \<Rightarrow> int \<Rightarrow> error + rat" where
  "int_truediv a b =
     (if b = 0 then Inl ZeroDivisionError
      else if finite64 (of_int a / of_int b) then Inr (fl64 (of_int a / of_int b))
      else Inl OverflowError)"

text \<open>Python 3: \<open>round(x)\<close> on a float gives the nearest integer, ties to even.\<close>

definition py_round :: "rat \<Rightarrow> int" where
  "py_round x = round_half_even x"

section \<open>utils.np_softmax\<close>

text \<open>
  The function works along one axis of a float64 array; the model is its action on one
  vector along that axis, the scores of one pixel, and the vectors of an array are
  treated independently of each other.

  The scores are finite floats. \<open>np.max\<close> of an empty vector raises ValueError. A
  difference \<open>l - max\<close> is never positive; where it overflows it is minus infinity, whose
  exponential is 0.

  \<open>np.exp\<close> and \<open>np.sum\<close> are numpy's. The value of \<open>np.exp\<close> on a finite float that is
  not positive is a finite float, and a parameter. \<open>np.sum\<close> adds the elements with
  float64 additions, each element once, in an order of its own choosing (in sequence,
  pairwise, with several accumulators); the order is a parameter, a tree of additions
  over the positions of the vector (a position outside the vector, which numpy never
  reads, counts as 0). A sum can overflow to an infinity, and the sum of the two
  infinities is not a number.

  A finite number divided by an infinity is zero. A quotient that is not a finite number
  (division by zero or by not-a-number, or overflow) is \<open>None\<close> in the output.
\<close>

datatype float64 = Num rat | PInf | NInf | NaN

definition float64_of :: "rat \<Rightarrow> float64" where
  "float64_of x = (if finite64 x then Num (fl64 x) else if 0 < x then PInf else NInf)"

fun float64_add :: "float64 \<Rightarrow> float64 \<Rightarrow> float64" where
  "float64_add (Num a) (Num b) = float64_of (a + b)"
| "float64_add NaN _ = NaN"
| "float64_add _ NaN = NaN"
| "float64_add PInf NInf = NaN"
| "float64_add NInf PInf = NaN"
| "float64_add PInf _ = PInf"
| "float64_add _ PInf = PInf"
| "float64_add NInf _ = NInf"
| "float64_add _ NInf = NInf"

fun finite_div :: "rat \<Rightarrow> float64 \<Rightarrow> rat option" where
  "finite_div e (Num s) = (if s = 0 \<or> \<not> finite64 (e / s) then None else Some (fl64 (e / s)))"
| "finite_div e PInf = Some 0"
| "finite_div e NInf = Some 0"
| "finite_div e NaN = None"

datatype sum_order = Elem nat | Add sum_order sum_order

fun leaves :: "sum_order \<Rightarrow> nat list" where
  "leaves (Elem i) = [i]"
| "leaves (Add a b) = leaves a @ leaves b"

fun sum_in_order :: "rat list \<Rightarrow> sum_order \<Rightarrow> float64" where
  "sum_in_order xs (Elem i) = Num (if i < length xs then xs ! i else 0)"
| "sum_in_order xs (Add a b) = float64_add (sum_in_order xs a) (sum_in_order xs b)"

record numpy_math =
  np_exp :: "rat \<Rightarrow> rat"
  np_sum_order :: "nat \<Rightarrow> sum_order"

definition np_sum :: "numpy_math \<Rightarrow> rat list \<Rightarrow> float64" where
  "np_sum np xs = (if xs = [] then Num 0 else sum_in_order xs (np_sum_order np (length xs)))"

definition np_softmax :: "numpy_math \<Rightarrow> rat list \<Rightarrow> error + rat option list" where
  "np_softmax np logits =
     (if logits = []
      then Inl (ValueError ''zero-size array to reduction operation maximum which has no identity'')
      else let m = Max (set logits);
               x = map (\<lambda>l. if finite64 (l - m) then np_exp np (fl64 (l - m)) else 0) logits;
               s = np_sum np x
           in Inr (map (\<lambda>e. finite_div e s) x))"

section \<open>SegmapManager._proper_round\<close>

text \<open>
  \<open>astype(np.int32)\<close> on a float64 array drops the fraction of each element. Where the
  result does not fit 32 bits the conversion is not defined by C; what the platform
  yields there is a parameter.

  From a list of Python integers numpy builds an int64 array when all of them fit
  64 signed bits, a uint64 array when all of them fit 64 unsigned bits, and a float64
  array when they fit one or the other but not the same one. On the integer arrays
  \<open>astype(np.int32)\<close> keeps the low 32 bits. An integer beyond 64 bits is kept as a
  Python object, and converting it raises OverflowError.
\<close>

type_synonym int32 = "32 word"

record numpy =
  astype_int32_out_of_range :: "rat \<Rightarrow> int32"

definition trunc :: "rat \<Rightarrow> int" where
  "trunc x = (if 0 \<le> x then \<lfloor>x\<rfloor> else \<lceil>x\<rceil>)"

definition float_astype_int32 :: "numpy \<Rightarrow> rat \<Rightarrow> int32" where
  "float_astype_int32 np x =
     (if - (2 ^ 31) \<le> trunc x \<and> trunc x < 2 ^ 31 then word_of_int (trunc x)
      else astype_int32_out_of_range np x)"

definition int_array_astype_int32 :: "numpy \<Rightarrow> int list \<Rightarrow> error + int32 list" where
  "int_array_astype_int32 np vs =
     (if \<forall>v \<in> set vs. - (2 ^ 63) \<le> v \<and> v < 2 ^ 63 then Inr (map word_of_int vs)
      else if \<forall>v \<in> set vs. 0 \<le> v \<and> v < 2 ^ 64 then Inr (map word_of_int vs)
      else if \<forall>v \<in> set vs. - (2 ^ 63) \<le> v \<and> v < 2 ^ 64
      then Inr (map (\<lambda>v. float_astype_int32 np (fl64 (of_int v))) vs)
      else Inl OverflowError)"

text \<open>The slices \<open>a[::2]\<close> and \<open>a[1::2]\<close>.\<close>

fun every_other :: "'a list \<Rightarrow> 'a list" where
  "every_other [] = []"
| "every_other [x] = [x]"
| "every_other (x # y # xs) = x # every_other xs"

definition n_greater :: "rat list \<Rightarrow> rat \<Rightarrow> nat" where
  "n_greater xs x = length (filter (\<lambda>x'. x' > x) xs)"

definition round_axis :: "rat list \<Rightarrow> int list" where
  "round_axis xs =
     map (\<lambda>(x, n). if n > 1 then \<lfloor>x\<rfloor> else \<lceil>x\<rceil>) (zip xs (map (n_greater xs) xs))"

definition ravel :: "('a \<times> 'a) list \<Rightarrow> 'a list" where
  "ravel ps = concat (map (\<lambda>(x, y). [x, y]) ps)"

text \<open>The rounded coordinates of a quadrangle, before the conversion to 32 bits.\<close>

definition round_quad :: "rat list \<Rightarrow> int list" where
  "round_quad markup_bbox =
     (let xs = every_other markup_bbox;
          ys = every_other (drop 1 markup_bbox)
      in ravel (zip (round_axis xs) (round_axis ys)))"

definition proper_round :: "numpy \<Rightarrow> rat list \<Rightarrow> error + int32 list" where
  "proper_round np markup_bbox =
     (if length markup_bbox \<noteq> 8 then Inr (map (float_astype_int32 np) markup_bbox)
      else int_array_astype_int32 np (round_quad markup_bbox))"

text \<open>
  The rule as the spec words it: the number of the other three vertices whose value on
  the axis (0 for x, 1 for y) is strictly greater than that of vertex \<open>i\<close>.
\<close>

definition others_greater :: "rat list \<Rightarrow> nat \<Rightarrow> nat \<Rightarrow> nat" where
  "others_greater markup_bbox axis i =
     length (filter (\<lambda>j. j \<noteq> i \<and> markup_bbox ! (2 * j + axis) > markup_bbox ! (2 * i + axis)) [0..<4])"

section \<open>SegmapManager.build_segmentation_map\<close>

text \<open>
  Pillow is outside the sources. \<open>Image.new\<close> refuses a negative size; the pixels that
  \<open>ImageDraw.polygon\<close> paints for a coordinate list are a parameter, and only those
  inside the image are stored.
\<close>

record pil =
  polygon_covers :: "int list \<Rightarrow> int \<Rightarrow> int \<Rightarrow> bool"

definition Image_new :: "int \<times> int \<Rightarrow> error + image" where
  "Image_new sz = (case sz of (w, h) \<Rightarrow>
     if w < 0 \<or> h < 0 then Inl (ValueError ''Width and height must be >= 0'')
     else Inr \<lparr>image_size = (nat w, nat h), image_rows = replicate (nat h) (replicate (nat w) 0)\<rparr>)"

definition getpixel :: "image \<Rightarrow> nat \<times> nat \<Rightarrow> nat" where
  "getpixel im xy = (case xy of (x, y) \<Rightarrow> image_rows im ! y ! x)"

definition draw_polygon :: "pil \<Rightarrow> int list \<Rightarrow> nat \<Rightarrow> image \<Rightarrow> image" where
  "draw_polygon p xy fill im =
     im\<lparr>image_rows :=
          map (\<lambda>(y, row). map (\<lambda>(x, v). if polygon_covers p xy (int x) (int y) then fill else v)
                                (enumerate 0 row))
              (enumerate 0 (image_rows im))\<rparr>"

text \<open>\<open>object_markup.bbox / scale\<close>, elementwise on float64, then the rounding.\<close>

definition drawn_bbox :: "numpy \<Rightarrow> int \<Rightarrow> markup \<Rightarrow> error + int32 list" where
  "drawn_bbox np scale object_markup =
     (case float_of_int scale of
        Inl e \<Rightarrow> Inl e
      | Inr s \<Rightarrow> proper_round np (map (\<lambda>x. fl64 (x / s)) (bbox object_markup)))"

definition fill_color :: "bool \<Rightarrow> markup \<Rightarrow> error + nat" where
  "fill_color for_drawing object_markup =
     (if for_drawing then Inr 255
      else let c = (case object_markup of
                      ClassifiedObjectMarkup b t \<Rightarrow> t + 1
                    | ObjectMarkup b \<Rightarrow> 1)
           in if c \<le> 255 then Inr c
              else Inl (AssertionError ''No more than 255 classes are supported''))"

fun draw_objects :: "numpy \<Rightarrow> pil \<Rightarrow> int \<Rightarrow> bool \<Rightarrow> markup list \<Rightarrow> image \<Rightarrow> error + image" where
  "draw_objects np p scale for_drawing [] im = Inr im"
| "draw_objects np p scale for_drawing (object_markup # rest) im =
     (case drawn_bbox np scale object_markup of
        Inl e \<Rightarrow> Inl e
      | Inr drawn \<Rightarrow>
          (case fill_color for_drawing object_markup of
             Inl e \<Rightarrow> Inl e
           | Inr c \<Rightarrow> draw_objects np p scale for_drawing rest
                        (draw_polygon p (map sint drawn) c im)))"

text \<open>
  For stating what the map holds: the coordinate list handed to \<open>draw.polygon\<close> for an
  object (\<open>drawn_bbox.tolist()\<close>), and the fill value as the spec words it.
\<close>

definition polygon_xy :: "numpy \<Rightarrow> int \<Rightarrow> markup \<Rightarrow> int list" where
  "polygon_xy np scale object_markup =
     (case drawn_bbox np scale object_markup of Inl e \<Rightarrow> [] | Inr drawn \<Rightarrow> map sint drawn)"

definition spec_fill_value :: "bool \<Rightarrow> markup \<Rightarrow> nat" where
  "spec_fill_value for_drawing object_markup =
     (if for_drawing then 255
      else case object_markup of ObjectMarkup b \<Rightarrow> 1 | ClassifiedObjectMarkup b t \<Rightarrow> t + 1)"

definition build_segmentation_map ::
  "numpy \<Rightarrow> pil \<Rightarrow> image \<Rightarrow> markup list \<Rightarrow> int \<Rightarrow> bool \<Rightarrow> error + image" where
  "build_segmentation_map np p img markup scale for_drawing =
     (case image_size img of (w, h) \<Rightarrow>
        if scale = 0 then Inl ZeroDivisionError
        else if \<not> (int w mod scale = 0 \<and> int h mod scale = 0) then Inl (AssertionError [])
        else (case Image_new (int w div scale, int h div scale) of
                Inl e \<Rightarrow> Inl e
              | Inr image_segmap \<Rightarrow> draw_objects np p scale for_drawing markup image_segmap))"

section \<open>SegmapManager._rescale_image_and_markup: the new size\<close>

text \<open>
  \<open>max(1, round(side * downscale / side_multiple)) * side_multiple\<close>. An infinite
  product or quotient reaches \<open>round\<close>, which raises OverflowError.
\<close>

definition scaled_side :: "int \<Rightarrow> rat \<Rightarrow> int \<Rightarrow> error + int" where
  "scaled_side side downscale side_multiple =
     (case float_of_int side of
        Inl e \<Rightarrow> Inl e
      | Inr s \<Rightarrow>
          (case float_of_int side_multiple of
             Inl e \<Rightarrow> Inl e
           | Inr m \<Rightarrow>
               if m = 0 then Inl ZeroDivisionError
               else if \<not> finite64 (s * downscale) \<or> \<not> finite64 (fl64 (s * downscale) / m)
               then Inl OverflowError
               else Inr (max 1 (py_round (fl64 (fl64 (s * downscale) / m))) * side_multiple)))"

text \<open>\<open>max(1, round(side / side_multiple)) * side_multiple\<close>.\<close>

definition quantized_side :: "int \<Rightarrow> int \<Rightarrow> error + int" where
  "quantized_side side side_multiple =
     (case int_truediv side side_multiple of
        Inl e \<Rightarrow> Inl e
      | Inr q \<Rightarrow> Inr (max 1 (py_round q) * side_multiple))"

text \<open>
  The size \<open>(new_w, new_h)\<close> that \<open>_rescale_image_and_markup\<close> computes before it
  resizes the image and scales the markup.
\<close>

definition rescale_image_and_markup_size :: "image \<Rightarrow> net_config \<Rightarrow> int option \<Rightarrow> error + int \<times> int" where
  "rescale_image_and_markup_size img net_config max_side_arg =
     (case image_size img of (wn, hn) \<Rightarrow>
      let w = int wn; h = int hn;
          side_multiple = get_side_multiple net_config;
          max_side = (case max_side_arg of None \<Rightarrow> get_max_side net_config | Some m \<Rightarrow> m)
      in if max w h > max_side then
           (case int_truediv max_side (max h w) of
              Inl e \<Rightarrow> Inl e
            | Inr downscale \<Rightarrow>
                if w > h then
                  (case scaled_side h downscale side_multiple of
                     Inl e \<Rightarrow> Inl e
                   | Inr new_h \<Rightarrow> Inr (max_side, new_h))
                else
                  (case scaled_side w downscale side_multiple of
                     Inl e \<Rightarrow> Inl e
                   | Inr new_w \<Rightarrow> Inr (new_w, max_side)))
         else
           (case quantized_side w side_multiple of
              Inl e \<Rightarrow> Inl e
            | Inr new_w \<Rightarrow>
                (case quantized_side h side_multiple of
                   Inl e \<Rightarrow> Inl e
                 | Inr new_h \<Rightarrow> Inr (new_w, new_h))))"

section \<open>Properties of the utilities\<close>

text \<open>
  C6. The raster handed to \<open>findContours\<close> holds the low eight bits of every pixel. The
  contours returned are exactly the contours found whose area is strictly greater than
  the threshold, in the order found; every contour of area at most the threshold is
  dropped; contours and boxes have the same length, and when the minimum-area rectangle
  of the i-th contour has the corners \<open>(x1, y1)\<close>, ..., \<open>(x4, y4)\<close>, the i-th box is
  the flat list \<open>[x1, y1, x2, y2, x3, y3, x4, y4]\<close>.
\<close>

theorem get_contours_and_boxes_filtered_aligned:
  "get_contours_and_boxes cv seg_map min_area = (cnts, boxes) \<Longrightarrow>
     cnts = filter (\<lambda>c. min_area < contourArea cv c)
              (findContours cv (map (map (\<lambda>v. word_of_int v)) seg_map))
     \<and> (\<forall>c \<in> set cnts. min_area < contourArea cv c)
     \<and> (\<forall>c \<in> set (findContours cv (map (map (\<lambda>v. word_of_int v)) seg_map)).
           contourArea cv c \<le> min_area \<longrightarrow> c \<notin> set cnts)
     \<and> length boxes = length cnts
     \<and> (\<forall>i < length cnts. \<forall>x1 y1 x2 y2 x3 y3 x4 y4.
           boxPoints cv (minAreaRect cv (cnts ! i)) = ((x1, y1), (x2, y2), (x3, y3), (x4, y4))
           \<longrightarrow> boxes ! i = [x1, y1, x2, y2, x3, y3, x4, y4])"
  by (auto simp: get_contours_and_boxes_def to_uint8_def Let_def)

theorem get_contours_and_boxes_filtered_aligned_witness:
  "get_contours_and_boxes
     \<lparr>findContours = (\<lambda>_. [[(1, 1), (4, 1), (4, 4), (1, 4)], [(7, 7)]]),
      contourArea = (\<lambda>c. if length c = 4 then 9 else 0),
      minAreaRect = (\<lambda>c. ((5 / 2, 5 / 2), (3, 3), 0)),
      boxPoints = (\<lambda>r. ((1, 4), (1, 1), (4, 1), (4, 4)))\<rparr>
     [[0, 0, 0], [0, 1, 0]] 5
   = ([[(1, 1), (4, 1), (4, 4), (1, 4)]], [[1, 4, 1, 1, 4, 1, 4, 4]])
   \<and> length [[1, 4, 1, 1, 4, 1, 4, 4 :: rat]] = length [[(1, 1), (4, 1), (4, 4), (1 :: int, 4 :: int)]]"
  using get_contours_and_boxes_filtered_aligned [of
     "\<lparr>findContours = (\<lambda>_. [[(1, 1), (4, 1), (4, 4), (1, 4)], [(7, 7)]]),
      contourArea = (\<lambda>c. if length c = 4 then 9 else 0),
      minAreaRect = (\<lambda>c. ((5 / 2, 5 / 2), (3, 3), 0)),
      boxPoints = (\<lambda>r. ((1, 4), (1, 1), (4, 1), (4, 4)))\<rparr>"
     "[[0, 0, 0], [0, 1, 0]]" 5
     "[[(1, 1), (4, 1), (4, 4), (1, 4)]]" "[[1, 4, 1, 1, 4, 1, 4, 4]]"]
  by (simp add: get_contours_and_boxes_def)

text \<open>
  C9 as stated fails: with a configuration that does not support classification the
  format is never looked at and the call returns normally.
\<close>

theorem extract_unsupported_format_no_error:
  "extract_bboxes_and_object_types [ObjectMarkup [0, 0, 4, 0, 4, 4, 0, 4]]
     \<lparr>get_scale = 4, get_side_multiple = 32, get_max_side = 512,
       is_classification_supported = False, get_class_name = (\<lambda>_. '''')\<rparr> ''index''
   = Inr ([[0, 0, 4, 0, 4, 4, 0, 4]], None)"
  by (simp add: extract_bboxes_and_object_types_def)

text \<open>
  C9, amended. When the configuration supports classification, a format other than
  \<open>name\<close> and \<open>id\<close> makes the call fail with a ValueError whatever the markup is; when
  it does not, the format is ignored and the call returns the boxes with no types.
\<close>

theorem extract_unsupported_format:
  "object_types_format \<noteq> ''name'' \<Longrightarrow> object_types_format \<noteq> ''id'' \<Longrightarrow>
     extract_bboxes_and_object_types image_markup net_config object_types_format =
       (if is_classification_supported net_config
        then Inl (ValueError ''Unsupported object type format'')
        else Inr (map bbox image_markup, None))"
  by (simp add: extract_bboxes_and_object_types_def)

theorem extract_unsupported_format_witness:
  "extract_bboxes_and_object_types [ClassifiedObjectMarkup [0, 0, 4, 0, 4, 4, 0, 4] 2]
     \<lparr>get_scale = 4, get_side_multiple = 32, get_max_side = 512,
       is_classification_supported = True, get_class_name = (\<lambda>_. ''text'')\<rparr> ''index''
   = Inl (ValueError ''Unsupported object type format'')"
  using extract_unsupported_format [of "''index''" "[ClassifiedObjectMarkup [0, 0, 4, 0, 4, 4, 0, 4] 2]"
      "\<lparr>get_scale = 4, get_side_multiple = 32, get_max_side = 512,
       is_classification_supported = True, get_class_name = (\<lambda>_. ''text'')\<rparr>"]
  by simp

text \<open>
  C10. When the polygon of the input points is valid, \<open>fix_quadrangle\<close> returns the
  input points themselves, in their order, and logs nothing.
\<close>

theorem fix_quadrangle_valid_identity:
  "is_valid sh quad \<Longrightarrow> fix_quadrangle sh quad = ([], Inr quad)"
  by (simp add: fix_quadrangle_def)

theorem fix_quadrangle_valid_identity_witness:
  "fix_quadrangle \<lparr>is_valid = (\<lambda>q. length q = 4), hull_exterior = (\<lambda>q. Inr (rev q))\<rparr>
     [(0, 0), (4, 0), (4, 4), (0, 4)] = ([], Inr [(0, 0), (4, 0), (4, 4), (0, 4)])"
  using fix_quadrangle_valid_identity [of
     "\<lparr>is_valid = (\<lambda>q. length q = 4), hull_exterior = (\<lambda>q. Inr (rev q))\<rparr>"
     "[(0, 0), (4, 0), (4, 4), (0, 4)]"]
  by simp

section \<open>Properties of the float64 rounding\<close>

lemma powi_nat: "0 \<le> k \<Longrightarrow> (2::rat) powi k = 2 ^ nat k"
  by (simp add: power_int_def)

lemma ilog2_bounds:
  assumes "0 < x"
  shows "2 powi (ilog2 x) \<le> x" and "x < 2 powi (ilog2 x + 1)"
proof -
  obtain p q where pq: "quotient_of x = (p, q)" by (cases "quotient_of x")
  then have q: "0 < q" and x: "x = of_int p / of_int q"
    by (auto dest: quotient_of_denom_pos quotient_of_div)
  with assms have p: "0 < p" by (simp add: zero_less_divide_iff)
  define a where "a = bitlen p"
  define b where "b = bitlen q"
  have a1: "1 \<le> a" and b1: "1 \<le> b"
    using p q bitlen_eq_zero_iff[of p] bitlen_eq_zero_iff[of q] bitlen_nonneg[of p] bitlen_nonneg[of q]
    by (auto simp: a_def b_def)
  have ip: "2 ^ nat (a - 1) \<le> p" "p < 2 ^ nat a" and iq: "2 ^ nat (b - 1) \<le> q" "q < 2 ^ nat b"
    using bitlen_bounds[OF p] bitlen_bounds[OF q] by (simp_all add: a_def b_def)
  have "(of_int (2 ^ nat (a - 1)) :: rat) \<le> of_int p" "(of_int p :: rat) < of_int (2 ^ nat a)"
       "(of_int (2 ^ nat (b - 1)) :: rat) \<le> of_int q" "(of_int q :: rat) < of_int (2 ^ nat b)"
    using ip iq by (simp_all only: of_int_le_iff of_int_less_iff)
  then have pa: "(2::rat) powi (a - 1) \<le> of_int p" "of_int p < (2::rat) powi a"
   and qb: "(2::rat) powi (b - 1) \<le> of_int q" "of_int q < (2::rat) powi b"
    using a1 b1 by (simp_all add: powi_nat)
  have qpos: "(0::rat) < of_int q" using q by simp
  have up: "x < 2 powi (a - b + 1)"
  proof -
    have "x * of_int q = of_int p" using x qpos by simp
    also have "\<dots> < 2 powi a" by (rule pa)
    also have "\<dots> = 2 powi (a - b + 1) * 2 powi (b - 1)"
      by (simp flip: power_int_add)
    also have "\<dots> \<le> 2 powi (a - b + 1) * of_int q"
      using qb(1) by (intro mult_left_mono) simp_all
    finally show ?thesis using qpos by simp
  qed
  have lo: "2 powi (a - b - 1) \<le> x"
  proof -
    have "(2::rat) powi (a - b - 1) * of_int q \<le> 2 powi (a - b - 1) * 2 powi b"
      using qb(2) by (intro mult_left_mono) simp_all
    also have "\<dots> = 2 powi (a - 1)" by (simp flip: power_int_add)
    also have "\<dots> \<le> of_int p" by (rule pa)
    also have "\<dots> = x * of_int q" using x qpos by simp
    finally show ?thesis using qpos by simp
  qed
  have il: "ilog2 x = (if 2 powi (a - b) \<le> x then a - b else a - b - 1)"
    by (simp add: ilog2_def pq a_def b_def Let_def)
  show "2 powi (ilog2 x) \<le> x" using lo by (simp add: il)
  show "x < 2 powi (ilog2 x + 1)" using up by (auto simp: il not_le)
qed

lemma round_half_even_err: "\<bar>of_int (round_half_even y) - y\<bar> \<le> 1 / 2"
proof -
  have "of_int \<lfloor>y\<rfloor> \<le> y" "y < of_int \<lfloor>y\<rfloor> + 1" by linarith+
  then show ?thesis
    by (auto simp: round_half_even_def Let_def abs_le_iff)
qed

lemma round_half_even_of_int: "round_half_even (of_int z) = z"
  by (simp add: round_half_even_def)

lemma round_half_even_le:
  assumes "y < of_int k + 1 / 2"
  shows "round_half_even y \<le> k"
proof -
  have "of_int (round_half_even y) \<le> y + 1 / 2"
    using round_half_even_err[of y] by linarith
  also have "\<dots> < of_int k + 1" using assms by simp
  finally have "(of_int (round_half_even y) :: rat) < of_int (k + 1)" by simp
  then have "round_half_even y < k + 1" by (simp only: of_int_less_iff)
  then show ?thesis by simp
qed

lemma round_half_even_nonneg: "0 \<le> y \<Longrightarrow> 0 \<le> round_half_even y"
  by (auto simp: round_half_even_def Let_def intro: add_nonneg_nonneg)

lemma half_ulp_min_pos: "(0::rat) < 2 powi (emin - 1)"
  by simp

lemma half_ulp_min_small: "(2::rat) powi (emin - 1) \<le> 1 / 2 ^ 64"
proof -
  have "emin - 1 \<le> - 64" by (simp add: emin_def)
  then have "(2::rat) powi (emin - 1) \<le> 2 powi (- 64)"
    by (intro power_int_increasing) simp_all
  also have "\<dots> = 1 / 2 ^ 64"
    by (simp add: power_int_minus field_simps)
  finally show ?thesis .
qed

lemma fl64_err:
  assumes "0 < x"
  shows "\<bar>fl64 x - x\<bar> \<le> x / 2 ^ 53 + 2 powi (emin - 1)"
proof -
  define e where "e = max (ilog2 x - 52) emin"
  define P :: rat where "P = 2 powi e"
  have P: "0 < P" by (simp add: P_def)
  have fl: "fl64 x = of_int (round_half_even (x / P)) * P"
    using assms by (simp add: fl64_def e_def P_def Let_def)
  have "fl64 x - x = (of_int (round_half_even (x / P)) - x / P) * P"
    using P by (simp add: fl field_simps)
  then have "\<bar>fl64 x - x\<bar> = \<bar>of_int (round_half_even (x / P)) - x / P\<bar> * P"
    using P by (simp add: abs_mult)
  also have "\<dots> \<le> 1 / 2 * P"
    using round_half_even_err[of "x / P"] P by (intro mult_right_mono) simp_all
  finally have half: "\<bar>fl64 x - x\<bar> \<le> P / 2" by simp
  have "P / 2 \<le> x / 2 ^ 53 + 2 powi (emin - 1)"
  proof (cases "emin \<le> ilog2 x - 52")
    case True
    then have "e = ilog2 x - 52" by (simp add: e_def)
    then have "P = 2 powi (ilog2 x) / 2 ^ 52"
      by (simp add: P_def power_int_diff)
    also have "\<dots> \<le> x / 2 ^ 52"
      using ilog2_bounds(1)[OF assms] by (simp add: divide_right_mono)
    finally have "P / 2 \<le> x / 2 ^ 53" by simp
    then show ?thesis using half_ulp_min_pos by linarith
  next
    case False
    then have "e = emin - 1 + 1" by (simp add: e_def)
    moreover have "(2::rat) powi (emin - 1 + 1) = 2 powi (emin - 1) * 2"
      by (rule power_int_add_1) simp
    ultimately have "P = 2 powi (emin - 1) * 2" unfolding P_def by simp
    then have "P / 2 = 2 powi (emin - 1)" by simp
    then show ?thesis using assms by simp
  qed
  with half show ?thesis by linarith
qed

lemma fl64_nonneg: "0 \<le> x \<Longrightarrow> 0 \<le> fl64 x"
  by (auto simp: fl64_def Let_def zero_le_mult_iff zero_le_divide_iff intro!: round_half_even_nonneg)

lemma fl64_upper: 
  assumes "0 \<le> x"
  shows "fl64 x \<le> x + x / 2 ^ 53 + 1 / 2 ^ 64"
proof (cases "x = 0")
  case True
  then show ?thesis by (simp add: fl64_def)
next
  case False
  with assms have "0 < x" by simp
  from fl64_err[OF this] half_ulp_min_small show ?thesis by linarith
qed

lemma fl64_of_int:
  assumes "0 \<le> n" "n < 2 ^ 53"
  shows "fl64 (of_int n) = of_int n"
proof (cases "n = 0")
  case True
  then show ?thesis by (simp add: fl64_def)
next
  case False
  with assms have n: "0 < n" by simp
  define x :: rat where "x = of_int n"
  have "1 \<le> n" using n by simp
  then have "(of_int 1 :: rat) \<le> of_int n" by (simp only: of_int_le_iff)
  moreover have "(of_int n :: rat) < of_int (2 ^ 53)"
    using assms(2) by (simp only: of_int_less_iff)
  ultimately have x: "0 < x" "1 \<le> x" "x < 2 ^ 53"
    using n by (simp_all add: x_def)
  have lo: "0 \<le> ilog2 x"
  proof (rule ccontr)
    assume "\<not> 0 \<le> ilog2 x"
    then have "ilog2 x + 1 \<le> 0" by simp
    then have "(2::rat) powi (ilog2 x + 1) \<le> 2 powi 0"
      by (intro power_int_increasing) simp_all
    with ilog2_bounds(2)[OF x(1)] x(2) show False by simp
  qed
  have hi: "ilog2 x \<le> 52"
  proof (rule ccontr)
    assume "\<not> ilog2 x \<le> 52"
    then have "53 \<le> ilog2 x" by simp
    then have "(2::rat) powi 53 \<le> 2 powi (ilog2 x)"
      by (intro power_int_increasing) simp_all
    with ilog2_bounds(1)[OF x(1)] x(3) show False by simp
  qed
  define k where "k = nat (52 - ilog2 x)"
  have e: "max (ilog2 x - 52) emin = - int k"
    using lo hi by (simp add: k_def emin_def)
  have P: "(2::rat) powi (- int k) = 1 / 2 ^ k"
    by (simp add: power_int_minus field_simps)
  have r: "round_half_even (x / (1 / 2 ^ k)) = n * 2 ^ k"
  proof -
    have "x / (1 / 2 ^ k) = of_int (n * 2 ^ k)" by (simp add: x_def)
    then show ?thesis by (simp only: round_half_even_of_int)
  qed
  have "fl64 x = of_int (round_half_even (x / 2 powi (- int k))) * 2 powi (- int k)"
    using x(1) by (simp add: fl64_def Let_def e)
  also have "\<dots> = of_int (round_half_even (x / (1 / 2 ^ k))) * (1 / 2 ^ k)"
    by (simp only: P)
  also have "\<dots> = of_int (n * 2 ^ k) * (1 / 2 ^ k)"
    by (simp only: r)
  also have "\<dots> = x"
    by (simp add: x_def)
  finally have "fl64 x = x" .
  then show ?thesis by (simp add: x_def)
qed

lemma finite64_bounded:
  assumes "0 \<le> x" "x \<le> 2 ^ 33"
  shows "finite64 x" and "fl64 x \<le> x + 1 / 2 ^ 19"
proof -
  have "x / 2 ^ 53 \<le> 2 ^ 33 / 2 ^ 53" using assms(2) by (intro divide_right_mono) simp_all
  then have a: "x / 2 ^ 53 \<le> (1::rat) / 2 ^ 20" by simp
  from fl64_upper[OF assms(1)] a show b: "fl64 x \<le> x + 1 / 2 ^ 19" by simp
  have "(2::rat) ^ 34 \<le> 2 ^ 1024" by (rule power_increasing) simp_all
  moreover have "fl64 x < 2 ^ 34" using b assms(2) by simp
  ultimately have "fl64 x < 2 ^ 1024" by (rule less_le_trans[rotated])
  then show "finite64 x" using fl64_nonneg[OF assms(1)] by (simp add: finite64_def)
qed

lemma float_of_int_exact:
  assumes "0 \<le> n" "n < 2 ^ 31"
  shows "float_of_int n = Inr (of_int n)"
proof -
  have n53: "n < 2 ^ 53" using assms(2) by simp
  have "(of_int n :: rat) \<le> of_int (2 ^ 33)" using assms(2) by (simp only: of_int_le_iff) simp
  then have "finite64 (of_int n)" using assms(1) by (intro finite64_bounded) simp_all
  then show ?thesis by (simp add: float_of_int_def fl64_of_int[OF assms(1) n53])
qed

lemma py_round_le:
  assumes "y < of_int k + 1 / 2"
  shows "py_round y \<le> k"
  using round_half_even_le[OF assms] by (simp add: py_round_def)

lemma quantized_side_ok:
  assumes side: "0 < side" "side < 2 ^ 31" and m: "0 < m" and k: "side \<le> k * m"
  shows "\<exists>n. quantized_side side m = Inr (n * m) \<and> 1 \<le> n \<and> n \<le> k"
proof -
  define x :: rat where "x = of_int side / of_int m"
  have mr: "(1::rat) \<le> of_int m" using m by simp
  have sr: "(of_int side :: rat) \<le> 2 ^ 31"
  proof -
    have "(of_int side :: rat) \<le> of_int (2 ^ 31)" using side(2) by (simp only: of_int_le_iff)
    then show ?thesis by simp
  qed
  have x0: "0 \<le> x" using side m by (simp add: x_def)
  have "x \<le> of_int side" using mr side(1) by (simp add: x_def divide_le_eq mult_le_cancel_left1)
  with sr have x31: "x \<le> 2 ^ 33" by simp
  have "(of_int side :: rat) \<le> of_int (k * m)" using k by (simp only: of_int_le_iff)
  then have xk: "x \<le> of_int k" using m by (simp add: x_def divide_le_eq)
  have k1: "1 \<le> k"
  proof (rule ccontr)
    assume "\<not> 1 \<le> k"
    then have "k \<le> 0" by simp
    then have "k * m \<le> 0" using m by (simp add: mult_le_0_iff)
    with k side(1) show False by simp
  qed
  note fin = finite64_bounded[OF x0 x31]
  have "fl64 x < of_int k + 1 / 2" using fin(2) xk by simp
  then have r: "py_round (fl64 x) \<le> k" by (rule py_round_le)
  have q: "quantized_side side m = Inr (max 1 (py_round (fl64 x)) * m)"
    using m fin(1) by (simp add: quantized_side_def int_truediv_def x_def)
  show ?thesis using r k1 by (intro exI[of _ "max 1 (py_round (fl64 x))"]) (simp add: q)
qed

lemma scaled_side_ok:
  assumes side: "0 < side" "side < 2 ^ 31" and m: "0 < m" "m < 2 ^ 31"
    and d: "0 \<le> d" and y: "of_int side * d \<le> of_int (k * m) + 1 / 2 ^ 20"
    and km: "k * m < 2 ^ 31" and k1: "1 \<le> k"
  shows "\<exists>n. scaled_side side d m = Inr (n * m) \<and> 1 \<le> n \<and> n \<le> k"
proof -
  define y :: rat where "y = of_int side * d"
  have mr: "(1::rat) \<le> of_int m" using m by simp
  have kmr: "(of_int (k * m) :: rat) \<le> 2 ^ 31"
  proof -
    have "(of_int (k * m) :: rat) \<le> of_int (2 ^ 31)" using km by (simp only: of_int_le_iff)
    then show ?thesis by simp
  qed
  have y0: "0 \<le> y" using side(1) d by (simp add: y_def)
  have y33: "y \<le> 2 ^ 33" using y kmr by (simp add: y_def)
  note finy = finite64_bounded[OF y0 y33]
  define p where "p = fl64 y"
  have p0: "0 \<le> p" unfolding p_def by (rule fl64_nonneg[OF y0])
  have pk: "p \<le> of_int (k * m) + 1 / 2 ^ 18" using finy(2) y by (simp add: p_def y_def)
  define z where "z = p / of_int m"
  have z0: "0 \<le> z" using p0 m by (simp add: z_def)
  have zp: "z \<le> p" using mr p0 by (simp add: z_def divide_le_eq mult_le_cancel_left1)
  have z33: "z \<le> 2 ^ 33" using zp pk kmr by simp
  have "p \<le> (of_int k + 1 / 2 ^ 18) * of_int m"
  proof -
    have "(1 / 2 ^ 18 :: rat) \<le> 1 / 2 ^ 18 * of_int m" using mr by simp
    with pk show ?thesis by (simp add: algebra_simps)
  qed
  then have zk: "z \<le> of_int k + 1 / 2 ^ 18" using m by (simp add: z_def divide_le_eq)
  note finz = finite64_bounded[OF z0 z33]
  have "fl64 z < of_int k + 1 / 2" using finz(2) zk by simp
  then have r: "py_round (fl64 z) \<le> k" by (rule py_round_le)
  have q: "scaled_side side d m = Inr (max 1 (py_round (fl64 z)) * m)"
    using m finy(1) finz(1) side
    by (simp add: scaled_side_def float_of_int_exact z_def p_def y_def)
  show ?thesis using r k1 by (intro exI[of _ "max 1 (py_round (fl64 z))"]) (simp add: q)
qed

lemma downscale_ok:
  assumes M: "0 < M" "M < mx" and mx: "mx < 2 ^ 31"
  shows "\<exists>d. int_truediv M mx = Inr d \<and> 0 \<le> d \<and>
           (\<forall>side. 0 < side \<and> side \<le> mx \<longrightarrow> of_int side * d \<le> of_int M + 1 / 2 ^ 20)"
proof -
  define x :: rat where "x = of_int M / of_int mx"
  have mxp: "(0::rat) < of_int mx" using M by simp
  have x0: "0 \<le> x" using M by (simp add: x_def)
  have x1: "x \<le> 1" using M by (simp add: x_def)
  then have x33: "x \<le> 2 ^ 33" by simp
  note fin = finite64_bounded[OF x0 x33]
  have "x / 2 ^ 53 \<le> 1 / 2 ^ 53" using x1 by (intro divide_right_mono) simp_all
  with fl64_upper[OF x0] have up: "fl64 x \<le> x + 1 / 2 ^ 52" by simp
  have mxr: "(of_int mx :: rat) \<le> 2 ^ 31"
  proof -
    have "(of_int mx :: rat) \<le> of_int (2 ^ 31)" using mx by (simp only: of_int_le_iff)
    then show ?thesis by simp
  qed
  have q: "int_truediv M mx = Inr (fl64 x)"
    using M fin(1) by (simp add: int_truediv_def x_def)
  have "of_int side * fl64 x \<le> of_int M + 1 / 2 ^ 20" if s: "0 < side" "side \<le> mx" for side
  proof -
    have sr: "(0::rat) < of_int side" "(of_int side :: rat) \<le> of_int mx"
      using s by simp_all
    have "of_int side * fl64 x \<le> of_int side * (x + 1 / 2 ^ 52)"
      using up sr(1) by (intro mult_left_mono) simp_all
    also have "\<dots> = of_int side * x + of_int side / 2 ^ 52" by (simp add: algebra_simps)
    also have "of_int side * x \<le> of_int mx * x"
      using sr(2) x0 by (intro mult_right_mono)
    also have "of_int mx * x = of_int M" using mxp by (simp add: x_def)
    also have "(of_int side :: rat) / 2 ^ 52 \<le> 2 ^ 31 / 2 ^ 52"
      using sr(2) mxr by (intro divide_right_mono) simp_all
    finally show ?thesis by simp
  qed
  then show ?thesis using q fl64_nonneg[OF x0] by (intro exI[of _ "fl64 x"]) simp
qed

lemma fl64_dyadic:
  assumes n: "0 < n" "n < 2 ^ 53" and e: "emin \<le> e"
  shows "fl64 (of_int n * 2 powi e) = of_int n * 2 powi e"
proof -
  define x :: rat where "x = of_int n * 2 powi e"
  have x0: "0 < x" using n(1) by (simp add: x_def)
  have "(of_int n :: rat) < of_int (2 ^ 53)" using n(2) by (simp only: of_int_less_iff)
  then have "x < 2 ^ 53 * 2 powi e" unfolding x_def by (intro mult_strict_right_mono) simp_all
  also have "\<dots> = 2 powi (53 + e)" by (simp add: power_int_add)
  finally have xup: "x < 2 powi (53 + e)" .
  have hi: "ilog2 x - 52 \<le> e"
  proof (rule ccontr)
    assume "\<not> ilog2 x - 52 \<le> e"
    then have "53 + e \<le> ilog2 x" by simp
    then have "(2::rat) powi (53 + e) \<le> 2 powi (ilog2 x)"
      by (intro power_int_increasing) simp_all
    with ilog2_bounds(1)[OF x0] xup show False by simp
  qed
  define E where "E = max (ilog2 x - 52) emin"
  have E: "E \<le> e" using hi e by (simp add: E_def)
  define k where "k = nat (e - E)"
  have split: "(2::rat) powi e = 2 ^ k * 2 powi E"
  proof -
    have "(2::rat) powi e = 2 powi (int k + E)" using E by (simp add: k_def)
    also have "\<dots> = 2 powi (int k) * 2 powi E" by (rule power_int_add) simp
    finally show ?thesis by simp
  qed
  have "x / 2 powi E = of_int (n * 2 ^ k)" by (simp add: x_def split)
  then have r: "round_half_even (x / 2 powi E) = n * 2 ^ k"
    by (simp only: round_half_even_of_int)
  have "fl64 x = of_int (round_half_even (x / 2 powi E)) * 2 powi E"
    using x0 by (simp add: fl64_def Let_def E_def)
  also have "\<dots> = of_int (n * 2 ^ k) * 2 powi E" by (simp only: r)
  also have "\<dots> = x" by (simp add: x_def split)
  finally show ?thesis by (simp add: x_def)
qed

section \<open>The rescaled size\<close>

lemma multiple_facts:
  assumes "0 < (m::int)" "1 \<le> n" "n \<le> k"
  shows "n * m mod m = 0" "n * m \<le> k * m" "m \<le> n * m"
  using assms by (simp_all add: mult_right_mono)

text \<open>
  C2, amended. For an image whose sides are positive and below \<open>2 ^ 31\<close> (the
  range of a Pillow image size), a positive side multiple \<open>m\<close> and a positive cap
  \<open>M\<close> that is a multiple of \<open>m\<close>, the rescaler computes a size \<open>(W, H)\<close> with
  \<open>W mod m = 0\<close>, \<open>H mod m = 0\<close>, \<open>max W H \<le> M\<close>, \<open>m \<le> W\<close> and \<open>m \<le> H\<close>. The proof
  follows the float64 arithmetic of the code, rounding error included.
\<close>

theorem rescale_image_and_markup_size_constraints:
  assumes sz: "image_size img = (w, h)"
    and w: "0 < w" "w < 2 ^ 31" and h: "0 < h" "h < 2 ^ 31"
    and m_def: "m = get_side_multiple net_config"
    and M_def: "M = (case max_side_arg of None \<Rightarrow> get_max_side net_config | Some x \<Rightarrow> x)"
    and m: "0 < m" and M: "0 < M" and dvd: "m dvd M"
  shows "\<exists>W H. rescale_image_and_markup_size img net_config max_side_arg = Inr (W, H)
           \<and> W mod m = 0 \<and> H mod m = 0 \<and> max W H \<le> M \<and> m \<le> W \<and> m \<le> H"
proof -
  from dvd obtain k where k: "M = k * m" by (auto simp: dvd_def mult.commute)
  have k1: "1 \<le> k"
  proof (rule ccontr)
    assume "\<not> 1 \<le> k"
    then have "k \<le> 0" by simp
    then have "k * m \<le> 0" using m by (simp add: mult_le_0_iff)
    with M k show False by simp
  qed
  have mM: "m \<le> M" "M mod m = 0" using multiple_facts[OF m k1 order_refl] k by simp_all
  have wi: "0 < int w" "int w < 2 ^ 31" and hi: "0 < int h" "int h < 2 ^ 31"
    using w h by simp_all
  show ?thesis
  proof (cases "max (int w) (int h) > M")
    case big: True
    then have Mmx: "M < max (int h) (int w)" by (simp add: max.commute)
    have mx31: "max (int h) (int w) < 2 ^ 31" using wi hi by simp
    from downscale_ok[OF M Mmx mx31] obtain d where
      d: "int_truediv M (max (int h) (int w)) = Inr d" "0 \<le> d"
         "\<And>side. 0 < side \<Longrightarrow> side \<le> max (int h) (int w)
            \<Longrightarrow> of_int side * d \<le> of_int M + 1 / 2 ^ 20"
      by blast
    have "M < 2 ^ 31" using Mmx mx31 by linarith
    then have M31: "k * m < 2 ^ 31" using k by simp
    have m31: "m < 2 ^ 31" using mM(1) M31 k by simp
    show ?thesis
    proof (cases "int w > int h")
      case True
      have "of_int (int h) * d \<le> of_int (k * m) + 1 / 2 ^ 20"
        using d(3)[of "int h"] hi True k by simp
      from scaled_side_ok[OF hi m m31 d(2) this M31 k1] obtain n where
        n: "scaled_side (int h) d m = Inr (n * m)" "1 \<le> n" "n \<le> k" by blast
      have "rescale_image_and_markup_size img net_config max_side_arg = Inr (M, n * m)"
        using big True d(1) n(1)
        by (simp add: rescale_image_and_markup_size_def sz Let_def m_def[symmetric] M_def[symmetric])
      then show ?thesis
        using multiple_facts[OF m n(2,3)] mM k by (intro exI[of _ M] exI[of _ "n * m"]) simp
    next
      case False
      have "of_int (int w) * d \<le> of_int (k * m) + 1 / 2 ^ 20"
        using d(3)[of "int w"] wi False k by simp
      from scaled_side_ok[OF wi m m31 d(2) this M31 k1] obtain n where
        n: "scaled_side (int w) d m = Inr (n * m)" "1 \<le> n" "n \<le> k" by blast
      have "rescale_image_and_markup_size img net_config max_side_arg = Inr (n * m, M)"
        using big False d(1) n(1)
        by (simp add: rescale_image_and_markup_size_def sz Let_def m_def[symmetric] M_def[symmetric])
      then show ?thesis
        using multiple_facts[OF m n(2,3)] mM k by (intro exI[of _ "n * m"] exI[of _ M]) simp
    qed
  next
    case small: False
    then have le: "int w \<le> k * m" "int h \<le> k * m" using k by simp_all
    from quantized_side_ok[OF wi m le(1)] obtain a where
      a: "quantized_side (int w) m = Inr (a * m)" "1 \<le> a" "a \<le> k" by blast
    from quantized_side_ok[OF hi m le(2)] obtain b where
      b: "quantized_side (int h) m = Inr (b * m)" "1 \<le> b" "b \<le> k" by blast
    have "rescale_image_and_markup_size img net_config max_side_arg = Inr (a * m, b * m)"
      using small a(1) b(1)
      by (simp add: rescale_image_and_markup_size_def sz Let_def m_def[symmetric] M_def[symmetric])
    then show ?thesis
      using multiple_facts[OF m a(2,3)] multiple_facts[OF m b(2,3)] k
      by (intro exI[of _ "a * m"] exI[of _ "b * m"]) simp
  qed
qed

theorem rescale_image_and_markup_size_constraints_witness:
  "\<exists>W H. rescale_image_and_markup_size \<lparr>image_size = (1000, 600), image_rows = replicate 600 (replicate 1000 0)\<rparr> 
       \<lparr>get_scale = 4, get_side_multiple = 32, get_max_side = 512,
            is_classification_supported = True, get_class_name = (\<lambda>_. ''text'')\<rparr> None = Inr (W, H)
           \<and> W mod 32 = 0 \<and> H mod 32 = 0 \<and> max W H \<le> 512 \<and> 32 \<le> W \<and> 32 \<le> H"
  using rescale_image_and_markup_size_constraints[of "\<lparr>image_size = (1000, 600), image_rows = replicate 600 (replicate 1000 0)\<rparr>" 1000 600 32
      "\<lparr>get_scale = 4, get_side_multiple = 32, get_max_side = 512,
            is_classification_supported = True, get_class_name = (\<lambda>_. ''text'')\<rparr>" 512 None]
  by simp

lemma fl64_half: "fl64 (1 / 2) = 1 / 2"
  using fl64_dyadic[of 1 "- 1"] by (simp add: emin_def power_int_minus)

lemma fl64_25_32: "fl64 (25 / 32) = 25 / 32"
  using fl64_dyadic[of 25 "- 5"] by (simp add: emin_def power_int_minus)

lemma fl64_25: "fl64 25 = 25"
  using fl64_of_int[of 25] by simp

lemma py_round_25_32: "py_round (25 / 32) = 1"
  by code_simp

text \<open>
  C2 as stated fails when the cap is not a multiple of the side multiple: the longer side
  is set to the cap itself. A 100 by 50 image with side multiple 32 and cap 50 is given
  the width 50.
\<close>

theorem rescale_image_and_markup_size_not_multiple:
  "rescale_image_and_markup_size \<lparr>image_size = (100, 50), image_rows = replicate 50 (replicate 100 0)\<rparr>
       \<lparr>get_scale = 4, get_side_multiple = 32, get_max_side = 50,
            is_classification_supported = True, get_class_name = (\<lambda>_. ''text'')\<rparr> None = Inr (50, 32)
   \<and> (50::int) mod 32 \<noteq> 0"
  by (simp add: rescale_image_and_markup_size_def int_truediv_def scaled_side_def float_of_int_exact
       finite64_bounded(1) fl64_half fl64_25 fl64_25_32 py_round_25_32)

section \<open>Properties of the rounding of vertices\<close>

lemma length8_cases:
  assumes "length (xs :: 'a list) = 8"
  obtains a b c d e f g h where "xs = [a, b, c, d, e, f, g, h]"
proof -
  from assms obtain a b c d e f g h where "xs = [a, b, c, d, e, f, g, h]"
    by (auto simp: length_Suc_conv numeral_eq_Suc)
  then show ?thesis using that by blast
qed

lemma round_quad_length: "length markup_bbox = 8 \<Longrightarrow> length (round_quad markup_bbox) = 8"
  by (erule length8_cases) (simp add: round_quad_def ravel_def round_axis_def Let_def)

lemma set_every_other: "set (every_other xs) \<subseteq> set xs"
  by (induction xs rule: every_other.induct) auto

lemma set_ravel_zip: "set (ravel (zip as bs)) \<subseteq> set as \<union> set bs"
  by (auto simp: ravel_def dest: set_zip_leftD set_zip_rightD)

lemma set_round_axis: "v \<in> set (round_axis ys) \<Longrightarrow> \<exists>x \<in> set ys. v = \<lfloor>x\<rfloor> \<or> v = \<lceil>x\<rceil>"
  by (auto simp: round_axis_def split: if_splits dest!: set_zip_leftD)

lemma round_quad_elems:
  assumes "v \<in> set (round_quad markup_bbox)"
  shows "\<exists>x \<in> set markup_bbox. v = \<lfloor>x\<rfloor> \<or> v = \<lceil>x\<rceil>"
proof -
  have "set (round_quad markup_bbox) \<subseteq>
      set (round_axis (every_other markup_bbox)) \<union> set (round_axis (every_other (drop 1 markup_bbox)))"
    unfolding round_quad_def Let_def by (rule set_ravel_zip)
  with assms have "v \<in> set (round_axis (every_other markup_bbox))
      \<or> v \<in> set (round_axis (every_other (drop 1 markup_bbox)))"
    by blast
  then obtain x where x: "v = \<lfloor>x\<rfloor> \<or> v = \<lceil>x\<rceil>"
      "x \<in> set (every_other markup_bbox) \<or> x \<in> set (every_other (drop 1 markup_bbox))"
    using set_round_axis by blast
  have "set (every_other (drop 1 markup_bbox)) \<subseteq> set markup_bbox"
    using set_every_other[of "drop 1 markup_bbox"] set_drop_subset[of 1 markup_bbox] by (rule subset_trans)
  with x(2) set_every_other[of markup_bbox] have "x \<in> set markup_bbox" by blast
  with x(1) show ?thesis by blast
qed

lemma upt4: "[0..<4] = [0, 1, 2, 3]"
  by (simp add: upt_rec)

lemma round_quad_rule:
  assumes "length markup_bbox = 8" "i < 4" "axis < 2"
  shows "round_quad markup_bbox ! (2 * i + axis) =
           (if 1 < others_greater markup_bbox axis i then \<lfloor>markup_bbox ! (2 * i + axis)\<rfloor>
            else \<lceil>markup_bbox ! (2 * i + axis)\<rceil>)"
proof -
  from assms(1) obtain a b c d e f g h where xs: "markup_bbox = [a, b, c, d, e, f, g, h]"
    by (rule length8_cases)
  from assms(2) have i: "i = 0 \<or> i = 1 \<or> i = 2 \<or> i = 3" by arith
  from assms(3) have ax: "axis = 0 \<or> axis = 1" by arith
  show ?thesis
    using i ax unfolding xs
    by (elim disjE; simp add: round_quad_def ravel_def round_axis_def n_greater_def others_greater_def upt4)
qed

lemma round_in_int32:
  assumes "- (2 ^ 31) \<le> x" "x \<le> 2 ^ 31 - 1"
  shows "- (2 ^ 31) \<le> \<lfloor>x\<rfloor> \<and> \<lfloor>x\<rfloor> < 2 ^ 31" and "- (2 ^ 31) \<le> \<lceil>x\<rceil> \<and> \<lceil>x\<rceil> < 2 ^ 31"
proof -
  have "of_int (- (2 ^ 31)) \<le> x" "x < of_int (2 ^ 31)" "x \<le> of_int (2 ^ 31 - 1)"
    using assms by simp_all
  then have f: "- (2 ^ 31) \<le> \<lfloor>x\<rfloor>" "\<lfloor>x\<rfloor> < 2 ^ 31" and c: "\<lceil>x\<rceil> \<le> 2 ^ 31 - 1"
    by (simp_all only: le_floor_iff floor_less_iff ceiling_le_iff)
  show "- (2 ^ 31) \<le> \<lfloor>x\<rfloor> \<and> \<lfloor>x\<rfloor> < 2 ^ 31" using f by simp
  have "\<lfloor>x\<rfloor> \<le> \<lceil>x\<rceil>" by (rule floor_le_ceiling)
  then show "- (2 ^ 31) \<le> \<lceil>x\<rceil> \<and> \<lceil>x\<rceil> < 2 ^ 31" using f(1) c by linarith
qed

lemma sint_int32: "- (2 ^ 31) \<le> v \<Longrightarrow> v < 2 ^ 31 \<Longrightarrow> sint (word_of_int v :: int32) = v"
  by (simp add: sint_sbintrunc' signed_take_bit_int_eq_self)

text \<open>
  C1. For every sequence of eight coordinates, every vertex \<open>i\<close> and both axes: the
  coordinate is rounded with floor when strictly more than one of the other three vertices
  has a strictly greater value on that axis, and with ceiling otherwise (so also in the
  tie of one greater, one less, one equal). The rounded integers are then converted to
  32 bits; for coordinates within the 32-bit range the result read back is the rounded
  value itself.
\<close>

theorem proper_round_quad_rule:
  assumes "length markup_bbox = 8" "i < 4" "axis < 2"
  shows "proper_round np markup_bbox = int_array_astype_int32 np (round_quad markup_bbox)
       \<and> length (round_quad markup_bbox) = 8
       \<and> round_quad markup_bbox ! (2 * i + axis) =
           (if 1 < others_greater markup_bbox axis i then \<lfloor>markup_bbox ! (2 * i + axis)\<rfloor>
            else \<lceil>markup_bbox ! (2 * i + axis)\<rceil>)
       \<and> ((\<forall>x \<in> set markup_bbox. - (2 ^ 31) \<le> x \<and> x \<le> 2 ^ 31 - 1) \<longrightarrow>
            (\<exists>out. proper_round np markup_bbox = Inr out \<and> length out = 8
               \<and> sint (out ! (2 * i + axis)) =
                   (if 1 < others_greater markup_bbox axis i then \<lfloor>markup_bbox ! (2 * i + axis)\<rfloor>
                    else \<lceil>markup_bbox ! (2 * i + axis)\<rceil>)))"
proof (intro conjI impI)
  show pr: "proper_round np markup_bbox = int_array_astype_int32 np (round_quad markup_bbox)"
    using assms(1) by (simp add: proper_round_def)
  show len: "length (round_quad markup_bbox) = 8"
    using assms(1) by (rule round_quad_length)
  show rule: "round_quad markup_bbox ! (2 * i + axis) =
           (if 1 < others_greater markup_bbox axis i then \<lfloor>markup_bbox ! (2 * i + axis)\<rfloor>
            else \<lceil>markup_bbox ! (2 * i + axis)\<rceil>)"
    using assms by (rule round_quad_rule)
  assume range: "\<forall>x \<in> set markup_bbox. - (2 ^ 31) \<le> x \<and> x \<le> 2 ^ 31 - 1"
  have r32: "- (2 ^ 31) \<le> v \<and> v < 2 ^ 31" if "v \<in> set (round_quad markup_bbox)" for v
    using round_quad_elems[OF that] range round_in_int32 by blast
  then have ok: "\<forall>v \<in> set (round_quad markup_bbox). - (2 ^ 63) \<le> v \<and> v < 2 ^ 63"
    by fastforce
  have idx: "2 * i + axis < length (round_quad markup_bbox)"
    using assms(2,3) len by simp
  then have "round_quad markup_bbox ! (2 * i + axis) \<in> set (round_quad markup_bbox)"
    by (rule nth_mem)
  from r32[OF this] have "sint (word_of_int (round_quad markup_bbox ! (2 * i + axis)) :: int32)
      = round_quad markup_bbox ! (2 * i + axis)"
    by (simp add: sint_int32)
  then show "\<exists>out. proper_round np markup_bbox = Inr out \<and> length out = 8
               \<and> sint (out ! (2 * i + axis)) =
                   (if 1 < others_greater markup_bbox axis i then \<lfloor>markup_bbox ! (2 * i + axis)\<rfloor>
                    else \<lceil>markup_bbox ! (2 * i + axis)\<rceil>)"
    using ok idx len rule
    by (intro exI[of _ "map word_of_int (round_quad markup_bbox)"])
       (simp add: pr int_array_astype_int32_def)
qed

theorem proper_round_quad_rule_witness:
  "others_greater [3 / 2, 1 / 2, 5 / 2, 3 / 2, 3 / 2, 5 / 2, 1 / 2, 3 / 2] 0 0 = 1
   \<and> round_quad [3 / 2, 1 / 2, 5 / 2, 3 / 2, 3 / 2, 5 / 2, 1 / 2, 3 / 2] ! 0 = 2
   \<and> (\<exists>out. proper_round \<lparr>astype_int32_out_of_range = (\<lambda>_. 2147483648)\<rparr>
               [3 / 2, 1 / 2, 5 / 2, 3 / 2, 3 / 2, 5 / 2, 1 / 2, 3 / 2] = Inr out
             \<and> length out = 8 \<and> sint (out ! 0) = 2)"
proof -
  have c: "\<lceil>3 / 2 :: rat\<rceil> = 2" by (simp add: ceiling_eq_iff)
  show ?thesis
    using proper_round_quad_rule[of "[3 / 2, 1 / 2, 5 / 2, 3 / 2, 3 / 2, 5 / 2, 1 / 2, 3 / 2]" 0 0
        "\<lparr>astype_int32_out_of_range = (\<lambda>_. 2147483648)\<rparr>"]
    by (simp (no_asm_use) add: others_greater_def upt4 c) metis
qed

lemma trunc_in_range:
  assumes "- (2 ^ 31) \<le> x" "x < 2 ^ 31"
  shows "- (2 ^ 31) \<le> trunc x \<and> trunc x < 2 ^ 31"
proof -
  have a: "of_int (- (2 ^ 31)) \<le> x" "x < of_int (2 ^ 31)" using assms by simp_all
  then have f: "- (2 ^ 31) \<le> \<lfloor>x\<rfloor>" "\<lfloor>x\<rfloor> < 2 ^ 31"
    by (simp_all only: le_floor_iff floor_less_iff)
  have c1: "\<lfloor>x\<rfloor> \<le> \<lceil>x\<rceil>" by (rule floor_le_ceiling)
  have "x < 0 \<Longrightarrow> \<lceil>x\<rceil> \<le> 0" by (simp add: ceiling_le_iff)
  then show ?thesis using f c1 by (auto simp: trunc_def)
qed

text \<open>
  What the fallback does: for every coordinate sequence whose length is not 8, each
  coordinate within the 32-bit range loses its fraction, that is, it is rounded towards
  zero (floor for a non-negative coordinate, ceiling for a negative one).
\<close>

lemma proper_round_polygon_truncates:
  assumes "length markup_bbox \<noteq> 8"
  shows "\<exists>out. proper_round np markup_bbox = Inr out \<and> length out = length markup_bbox
     \<and> (\<forall>i < length markup_bbox. - (2 ^ 31) \<le> markup_bbox ! i \<and> markup_bbox ! i < 2 ^ 31 \<longrightarrow>
          sint (out ! i) = (if 0 \<le> markup_bbox ! i then \<lfloor>markup_bbox ! i\<rfloor> else \<lceil>markup_bbox ! i\<rceil>))"
proof -
  have "sint (float_astype_int32 np x) = (if 0 \<le> x then \<lfloor>x\<rfloor> else \<lceil>x\<rceil>)"
    if "- (2 ^ 31) \<le> x" "x < 2 ^ 31" for x
    using trunc_in_range[OF that] by (simp add: float_astype_int32_def sint_int32) (simp add: trunc_def)
  then show ?thesis using assms
    by (intro exI[of _ "map (float_astype_int32 np) markup_bbox"]) (simp add: proper_round_def)
qed

lemma proper_round_polygon_truncates_example:
  "\<exists>out. proper_round \<lparr>astype_int32_out_of_range = (\<lambda>_. 2147483648)\<rparr>
            [11 / 4, 1 / 4, 19 / 4, 1 / 4, 15 / 4, 13 / 4] = Inr out \<and> length out = 6
        \<and> sint (out ! 0) = 2"
proof -
  have f: "\<lfloor>11 / 4 :: rat\<rfloor> = 2" by (simp add: floor_eq_iff)
  show ?thesis
    using proper_round_polygon_truncates[of "[11 / 4, 1 / 4, 19 / 4, 1 / 4, 15 / 4, 13 / 4]"
        "\<lparr>astype_int32_out_of_range = (\<lambda>_. 2147483648)\<rparr>"]
    by (auto simp: f)
qed

text \<open>
  C3. The claim asks for nearest-integer rounding when the sequence does not have eight
  coordinates, and the comment in the code says that the coordinates are simply rounded
  there. The code converts with \<open>astype(np.int32)\<close>, which truncates: on the triangle
  below the coordinates 11/4, 19/4 and 15/4 become 2, 4 and 3, while the nearest integers
  are 3, 5 and 4.
\<close>

theorem proper_round_polygon_not_nearest:
  "proper_round \<lparr>astype_int32_out_of_range = (\<lambda>_. 2147483648)\<rparr>
       [11 / 4, 1 / 4, 19 / 4, 1 / 4, 15 / 4, 13 / 4] = Inr [2, 0, 4, 0, 3, 3]
   \<and> map round [11 / 4, 1 / 4, 19 / 4, 1 / 4, 15 / 4, 13 / 4 :: rat] = [3, 0, 5, 0, 4, 3]"
  by code_simp

section \<open>Properties of the segmentation map\<close>

lemma draw_polygon_shape:
  "image_size (draw_polygon p xy c im) = image_size im"
  "length (image_rows (draw_polygon p xy c im)) = length (image_rows im)"
  "y < length (image_rows im) \<Longrightarrow>
     length (image_rows (draw_polygon p xy c im) ! y) = length (image_rows im ! y)"
  by (simp_all add: draw_polygon_def nth_enumerate_eq)

lemma draw_polygon_pixel:
  assumes "y < length (image_rows im)" "x < length (image_rows im ! y)"
  shows "getpixel (draw_polygon p xy c im) (x, y) =
           (if polygon_covers p xy (int x) (int y) then c else getpixel im (x, y))"
  using assms by (simp add: draw_polygon_def getpixel_def nth_enumerate_eq)

lemma fill_color_Inr: "fill_color fd m = Inr c \<Longrightarrow> c = spec_fill_value fd m \<and> c \<le> 255"
  by (auto simp: fill_color_def spec_fill_value_def Let_def split: if_splits markup.splits)

lemma fill_color_ok:
  "fd \<or> spec_fill_value fd m \<le> 255 \<Longrightarrow> fill_color fd m = Inr (spec_fill_value fd m)"
  by (cases m) (auto simp: fill_color_def spec_fill_value_def Let_def split: if_splits)

lemma fill_color_fail:
  "\<not> fd \<Longrightarrow> 255 < spec_fill_value fd m \<Longrightarrow>
     fill_color fd m = Inl (AssertionError ''No more than 255 classes are supported'')"
  by (auto simp: fill_color_def spec_fill_value_def Let_def split: markup.splits)

lemma find_app:
  "find P (xs @ ys) = (case find P xs of None \<Rightarrow> find P ys | Some x \<Rightarrow> Some x)"
  by (induction xs) simp_all

lemma draw_objects_pixels:
  assumes "\<forall>m \<in> set ms. \<exists>d. drawn_bbox np s m = Inr d"
    and "fd \<or> (\<forall>m \<in> set ms. spec_fill_value fd m \<le> 255)"
  shows "\<exists>out. draw_objects np p s fd ms im = Inr out
           \<and> image_size out = image_size im
           \<and> length (image_rows out) = length (image_rows im)
           \<and> (\<forall>y < length (image_rows im).
                 length (image_rows out ! y) = length (image_rows im ! y)
                 \<and> (\<forall>x < length (image_rows im ! y).
                       getpixel out (x, y) =
                         (case find (\<lambda>m. polygon_covers p (polygon_xy np s m) (int x) (int y)) (rev ms) of
                            None \<Rightarrow> getpixel im (x, y)
                          | Some m \<Rightarrow> spec_fill_value fd m)))"
  using assms
proof (induction ms arbitrary: im)
  case Nil
  then show ?case by simp
next
  case (Cons m ms)
  from Cons.prems(1) obtain d where d: "drawn_bbox np s m = Inr d" by auto
  have c: "fill_color fd m = Inr (spec_fill_value fd m)"
    using Cons.prems(2) by (intro fill_color_ok) auto
  define im' where "im' = draw_polygon p (map sint d) (spec_fill_value fd m) im"
  have step: "draw_objects np p s fd (m # ms) im = draw_objects np p s fd ms im'"
    by (simp add: d c im'_def)
  have xy: "polygon_xy np s m = map sint d" by (simp add: polygon_xy_def d)
  from Cons.prems have "\<forall>m \<in> set ms. \<exists>d. drawn_bbox np s m = Inr d"
    and "fd \<or> (\<forall>m \<in> set ms. spec_fill_value fd m \<le> 255)" by auto
  from Cons.IH[OF this, of im'] obtain out where out:
    "draw_objects np p s fd ms im' = Inr out"
    "image_size out = image_size im'"
    "length (image_rows out) = length (image_rows im')"
    "\<And>y. y < length (image_rows im') \<Longrightarrow> length (image_rows out ! y) = length (image_rows im' ! y)"
    "\<And>x y. y < length (image_rows im') \<Longrightarrow> x < length (image_rows im' ! y) \<Longrightarrow>
        getpixel out (x, y) =
          (case find (\<lambda>m. polygon_covers p (polygon_xy np s m) (int x) (int y)) (rev ms) of
             None \<Rightarrow> getpixel im' (x, y)
           | Some m \<Rightarrow> spec_fill_value fd m)"
    by blast
  have shape: "image_size im' = image_size im" "length (image_rows im') = length (image_rows im)"
    "\<And>y. y < length (image_rows im) \<Longrightarrow> length (image_rows im' ! y) = length (image_rows im ! y)"
    unfolding im'_def by (simp_all add: draw_polygon_shape)
  have pix: "getpixel out (x, y) =
          (case find (\<lambda>m. polygon_covers p (polygon_xy np s m) (int x) (int y)) (rev (m # ms)) of
             None \<Rightarrow> getpixel im (x, y)
           | Some m \<Rightarrow> spec_fill_value fd m)"
    if "y < length (image_rows im)" "x < length (image_rows im ! y)" for x y
  proof -
    have "getpixel im' (x, y) =
        (if polygon_covers p (map sint d) (int x) (int y) then spec_fill_value fd m else getpixel im (x, y))"
      unfolding im'_def using that by (rule draw_polygon_pixel)
    then show ?thesis
      using out(5)[of y x] that shape
      by (simp add: find_app xy split: option.splits)
  qed
  show ?case
    unfolding step using out(1-4) shape pix by (intro exI[of _ out]) simp
qed

lemma draw_objects_assertion:
  assumes "\<forall>m \<in> set ms. \<exists>d. drawn_bbox np s m = Inr d"
    and "\<not> fd" "\<exists>m \<in> set ms. 255 < spec_fill_value fd m"
  shows "draw_objects np p s fd ms im = Inl (AssertionError ''No more than 255 classes are supported'')"
  using assms
proof (induction ms arbitrary: im)
  case Nil
  then show ?case by simp
next
  case (Cons m ms)
  from Cons.prems(1) obtain d where d: "drawn_bbox np s m = Inr d" by auto
  show ?case
  proof (cases "255 < spec_fill_value fd m")
    case True
    then show ?thesis using Cons.prems(2) by (simp add: d fill_color_fail)
  next
    case False
    then have c: "fill_color fd m = Inr (spec_fill_value fd m)"
      by (intro fill_color_ok) simp
    from False Cons.prems have "\<forall>m \<in> set ms. \<exists>d. drawn_bbox np s m = Inr d"
      "\<exists>m \<in> set ms. 255 < spec_fill_value fd m" by auto
    from Cons.IH[OF this(1) Cons.prems(2) this(2)] show ?thesis by (simp add: d c)
  qed
qed

lemma drawn_bbox_error: "drawn_bbox np s m = Inl e \<Longrightarrow> e = OverflowError"
  by (auto simp: drawn_bbox_def float_of_int_def proper_round_def int_array_astype_int32_def
      split: if_splits sum.splits)

lemma draw_objects_error:
  "draw_objects np p s fd ms im = Inl e \<Longrightarrow>
     e = OverflowError \<or> e = AssertionError ''No more than 255 classes are supported''"
proof (induction ms arbitrary: im)
  case Nil
  then show ?case by simp
next
  case (Cons m ms)
  then show ?case
    by (auto simp: fill_color_def Let_def split: sum.splits if_splits dest: drawn_bbox_error)
qed

lemma Image_new_ok:
  assumes "0 < scale"
  shows "Image_new (int w div scale, int h div scale) =
           Inr \<lparr>image_size = (w div nat scale, h div nat scale),
                image_rows = replicate (h div nat scale) (replicate (w div nat scale) 0)\<rparr>"
proof -
  have "nat (int w div scale) = w div nat scale" "nat (int h div scale) = h div nat scale"
    using assms by (simp_all add: nat_div_distrib)
  moreover have "0 \<le> int w div scale" "0 \<le> int h div scale"
    using assms by (simp_all add: pos_imp_zdiv_nonneg_iff)
  ultimately show ?thesis by (simp add: Image_new_def)
qed

text \<open>
  C4, amended. For every image of size \<open>(w, h)\<close> and every positive scale, the call fails
  at its first assertion, the one on the dimensions, if and only if the scale does not
  divide both \<open>w\<close> and \<open>h\<close>; when it divides both, a raster of size
  \<open>(w div scale, h div scale)\<close> filled with 0 is allocated and the objects are drawn into
  it (which can still fail on the assertion about the fill value).
\<close>

theorem build_segmentation_map_precondition:
  assumes "image_size img = (w, h)" "0 < scale"
  shows "(build_segmentation_map np p img markup scale for_drawing = Inl (AssertionError [])
            \<longleftrightarrow> \<not> (scale dvd int w \<and> scale dvd int h))
       \<and> (scale dvd int w \<and> scale dvd int h \<longrightarrow>
            build_segmentation_map np p img markup scale for_drawing =
              draw_objects np p scale for_drawing markup
                \<lparr>image_size = (w div nat scale, h div nat scale),
                 image_rows = replicate (h div nat scale) (replicate (w div nat scale) 0)\<rparr>)"
proof (cases "scale dvd int w \<and> scale dvd int h")
  case True
  then have m: "int w mod scale = 0" "int h mod scale = 0" by (simp_all add: mod_eq_0_iff_dvd)
  have b: "build_segmentation_map np p img markup scale for_drawing =
              draw_objects np p scale for_drawing markup
                \<lparr>image_size = (w div nat scale, h div nat scale),
                 image_rows = replicate (h div nat scale) (replicate (w div nat scale) 0)\<rparr>"
    using assms m by (simp add: build_segmentation_map_def Image_new_ok)
  have "draw_objects np p scale for_drawing markup im \<noteq> Inl (AssertionError [])" for im
    using draw_objects_error[of np p scale for_drawing markup im "AssertionError []"] by auto
  with b True show ?thesis by simp
next
  case False
  then have "\<not> (int w mod scale = 0 \<and> int h mod scale = 0)" by (simp add: mod_eq_0_iff_dvd)
  then have "build_segmentation_map np p img markup scale for_drawing = Inl (AssertionError [])"
    using assms by (simp add: build_segmentation_map_def)
  with False show ?thesis by blast
qed

text \<open>
  C5. When the dimensions pass the precondition and every object's coordinates round,
  then: if drawing mode is set or every fill value is at most 255, the map is built and
  each of its pixels holds the fill value of the last object, in input order, whose polygon
  covers it (0 where none does), the fill value being 255 in drawing mode, 1 for an
  unclassified object and \<open>object_type + 1\<close> for a classified one; and if drawing mode is
  off and some fill value exceeds 255, the call fails on the assertion.
\<close>

theorem build_segmentation_map_fill:
  assumes sz: "image_size img = (w, h)" and s: "0 < scale" "scale dvd int w" "scale dvd int h"
    and rounds: "\<forall>m \<in> set markup. \<exists>d. drawn_bbox np scale m = Inr d"
  shows "(for_drawing \<or> (\<forall>m \<in> set markup. spec_fill_value for_drawing m \<le> 255) \<longrightarrow>
           (\<exists>seg. build_segmentation_map np p img markup scale for_drawing = Inr seg
              \<and> image_size seg = (w div nat scale, h div nat scale)
              \<and> (\<forall>y < h div nat scale. \<forall>x < w div nat scale.
                   getpixel seg (x, y) =
                     (case find (\<lambda>m. polygon_covers p (polygon_xy np scale m) (int x) (int y))
                             (rev markup) of
                        None \<Rightarrow> 0
                      | Some m \<Rightarrow> spec_fill_value for_drawing m))))
       \<and> (\<not> for_drawing \<and> (\<exists>m \<in> set markup. 255 < spec_fill_value for_drawing m) \<longrightarrow>
            build_segmentation_map np p img markup scale for_drawing =
              Inl (AssertionError ''No more than 255 classes are supported''))"
proof -
  define blank where "blank = \<lparr>image_size = (w div nat scale, h div nat scale),
      image_rows = replicate (h div nat scale) (replicate (w div nat scale) (0::nat))\<rparr>"
  have m: "int w mod scale = 0" "int h mod scale = 0" using s by (simp_all add: mod_eq_0_iff_dvd)
  have b: "build_segmentation_map np p img markup scale for_drawing =
              draw_objects np p scale for_drawing markup blank"
    using sz s(1) m by (simp add: build_segmentation_map_def Image_new_ok blank_def)
  have blank: "image_size blank = (w div nat scale, h div nat scale)"
      "length (image_rows blank) = h div nat scale"
      "\<And>y. y < h div nat scale \<Longrightarrow> length (image_rows blank ! y) = w div nat scale"
      "\<And>x y. y < h div nat scale \<Longrightarrow> x < w div nat scale \<Longrightarrow> getpixel blank (x, y) = 0"
    by (simp_all add: blank_def getpixel_def)
  show ?thesis
  proof (intro conjI impI)
    assume ok: "for_drawing \<or> (\<forall>m \<in> set markup. spec_fill_value for_drawing m \<le> 255)"
    from draw_objects_pixels[OF rounds ok, of p blank] obtain out where out:
      "draw_objects np p scale for_drawing markup blank = Inr out"
      "image_size out = image_size blank"
      "\<And>x y. y < length (image_rows blank) \<Longrightarrow> x < length (image_rows blank ! y) \<Longrightarrow>
         getpixel out (x, y) =
           (case find (\<lambda>m. polygon_covers p (polygon_xy np scale m) (int x) (int y)) (rev markup) of
              None \<Rightarrow> getpixel blank (x, y)
            | Some m \<Rightarrow> spec_fill_value for_drawing m)"
      by blast
    have "getpixel out (x, y) =
           (case find (\<lambda>m. polygon_covers p (polygon_xy np scale m) (int x) (int y)) (rev markup) of
              None \<Rightarrow> 0
            | Some m \<Rightarrow> spec_fill_value for_drawing m)"
      if "y < h div nat scale" "x < w div nat scale" for x y
      using out(3)[of y x] that blank by (simp split: option.splits)
    then show "\<exists>seg. build_segmentation_map np p img markup scale for_drawing = Inr seg
              \<and> image_size seg = (w div nat scale, h div nat scale)
              \<and> (\<forall>y < h div nat scale. \<forall>x < w div nat scale.
                   getpixel seg (x, y) =
                     (case find (\<lambda>m. polygon_covers p (polygon_xy np scale m) (int x) (int y))
                             (rev markup) of
                        None \<Rightarrow> 0
                      | Some m \<Rightarrow> spec_fill_value for_drawing m))"
      using out(1,2) blank(1) by (intro exI[of _ out]) (simp add: b)
  next
    assume "\<not> for_drawing \<and> (\<exists>m \<in> set markup. 255 < spec_fill_value for_drawing m)"
    then have "\<not> for_drawing" "\<exists>m \<in> set markup. 255 < spec_fill_value for_drawing m"
      by blast+
    from draw_objects_assertion[OF rounds this, of p blank] show "build_segmentation_map np p img markup scale for_drawing =
              Inl (AssertionError ''No more than 255 classes are supported'')"
      by (simp add: b)
  qed
qed

lemma fl64_0: "fl64 0 = 0"
  by (simp add: fl64_def)

lemma fl64_small_ints: "fl64 1 = 1" "fl64 2 = 2" "fl64 3 = 3"
  using fl64_of_int[of 1] fl64_of_int[of 2] fl64_of_int[of 3] by simp_all

lemma fl64_halves: "fl64 (5 / 2) = 5 / 2" "fl64 (25 / 2) = 25 / 2"
  using fl64_dyadic[of 5 "- 1"] fl64_dyadic[of 25 "- 1"]
  by (simp_all add: emin_def power_int_minus)

lemma proper_round_square_a:
  "proper_round \<lparr>astype_int32_out_of_range = (\<lambda>_. 2147483648)\<rparr> [0, 0, 3, 0, 3, 3, 0, 3]
     = Inr [0, 0, 3, 0, 3, 3, 0, 3]"
  by code_simp

lemma proper_round_square_b:
  "proper_round \<lparr>astype_int32_out_of_range = (\<lambda>_. 2147483648)\<rparr> [1, 1, 2, 1, 2, 2, 1, 2]
     = Inr [1, 1, 2, 1, 2, 2, 1, 2]"
  by code_simp

lemma proper_round_square_c:
  "proper_round \<lparr>astype_int32_out_of_range = (\<lambda>_. 2147483648)\<rparr>
     [5 / 2, 5 / 2, 25 / 2, 5 / 2, 25 / 2, 25 / 2, 5 / 2, 25 / 2]
     = Inr [2, 2, 13, 2, 13, 13, 2, 13]"
  by code_simp

lemma drawn_bbox_square_a:
  "drawn_bbox \<lparr>astype_int32_out_of_range = (\<lambda>_. 2147483648)\<rparr> 2
     (ClassifiedObjectMarkup [0, 0, 6, 0, 6, 6, 0, 6] 2) = Inr [0, 0, 3, 0, 3, 3, 0, 3]"
  by (simp add: drawn_bbox_def float_of_int_exact fl64_0 fl64_small_ints proper_round_square_a)

lemma drawn_bbox_square_b:
  "drawn_bbox \<lparr>astype_int32_out_of_range = (\<lambda>_. 2147483648)\<rparr> 2
     (ObjectMarkup [2, 2, 4, 2, 4, 4, 2, 4]) = Inr [1, 1, 2, 1, 2, 2, 1, 2]"
  by (simp add: drawn_bbox_def float_of_int_exact fl64_0 fl64_small_ints proper_round_square_b)

lemma drawn_bbox_square_c:
  "drawn_bbox \<lparr>astype_int32_out_of_range = (\<lambda>_. 2147483648)\<rparr> 4
     (ClassifiedObjectMarkup [10, 10, 50, 10, 50, 50, 10, 50] 255) = Inr [2, 2, 13, 2, 13, 13, 2, 13]"
  by (simp add: drawn_bbox_def float_of_int_exact fl64_halves proper_round_square_c)

theorem build_segmentation_map_precondition_witness:
  "build_segmentation_map \<lparr>astype_int32_out_of_range = (\<lambda>_. 2147483648)\<rparr>
     \<lparr>polygon_covers = (\<lambda>xy x y. xy ! 0 \<le> x \<and> x \<le> xy ! 2 \<and> xy ! 1 \<le> y \<and> y \<le> xy ! 5)\<rparr>
     \<lparr>image_size = (201, 200), image_rows = replicate 200 (replicate 201 0)\<rparr>
     [ClassifiedObjectMarkup [10, 10, 50, 10, 50, 50, 10, 50] 2] 4 False
   = Inl (AssertionError [])"
  using build_segmentation_map_precondition [of
     "\<lparr>image_size = (201, 200), image_rows = replicate 200 (replicate 201 0)\<rparr>" 201 200 4
     "\<lparr>astype_int32_out_of_range = (\<lambda>_. 2147483648)\<rparr>"
     "\<lparr>polygon_covers = (\<lambda>xy x y. xy ! 0 \<le> x \<and> x \<le> xy ! 2 \<and> xy ! 1 \<le> y \<and> y \<le> xy ! 5)\<rparr>"
     "[ClassifiedObjectMarkup [10, 10, 50, 10, 50, 50, 10, 50] 2]" False]
  by simp

text \<open>
  C4 as stated fails in both directions. With a scale that divides both dimensions the
  call can still fail with an assertion (a class id of 255 gives the fill value 256), and
  with scale 0, which divides neither dimension, the failure is a ZeroDivisionError raised
  by \<open>w % scale\<close> before the assertion is evaluated, not an assertion.
\<close>

theorem build_segmentation_map_other_failures:
  "build_segmentation_map \<lparr>astype_int32_out_of_range = (\<lambda>_. 2147483648)\<rparr>
     \<lparr>polygon_covers = (\<lambda>xy x y. xy ! 0 \<le> x \<and> x \<le> xy ! 2 \<and> xy ! 1 \<le> y \<and> y \<le> xy ! 5)\<rparr>
     \<lparr>image_size = (200, 200), image_rows = replicate 200 (replicate 200 0)\<rparr>
     [ClassifiedObjectMarkup [10, 10, 50, 10, 50, 50, 10, 50] 255] 4 False
   = Inl (AssertionError ''No more than 255 classes are supported'')
   \<and> (4 :: int) dvd 200
   \<and> build_segmentation_map \<lparr>astype_int32_out_of_range = (\<lambda>_. 2147483648)\<rparr>
     \<lparr>polygon_covers = (\<lambda>xy x y. xy ! 0 \<le> x \<and> x \<le> xy ! 2 \<and> xy ! 1 \<le> y \<and> y \<le> xy ! 5)\<rparr>
     \<lparr>image_size = (200, 200), image_rows = replicate 200 (replicate 200 0)\<rparr>
     [ClassifiedObjectMarkup [10, 10, 50, 10, 50, 50, 10, 50] 2] 0 False
   = Inl ZeroDivisionError
   \<and> \<not> (0 :: int) dvd 200"
  by (simp add: build_segmentation_map_def Image_new_def drawn_bbox_square_c fill_color_def)

theorem build_segmentation_map_fill_witness:
  "\<exists>seg. build_segmentation_map \<lparr>astype_int32_out_of_range = (\<lambda>_. 2147483648)\<rparr>
       \<lparr>polygon_covers = (\<lambda>xy x y. xy ! 0 \<le> x \<and> x \<le> xy ! 2 \<and> xy ! 1 \<le> y \<and> y \<le> xy ! 5)\<rparr>
       \<lparr>image_size = (8, 8), image_rows = replicate 8 (replicate 8 0)\<rparr>
       [ClassifiedObjectMarkup [0, 0, 6, 0, 6, 6, 0, 6] 2, ObjectMarkup [2, 2, 4, 2, 4, 4, 2, 4]] 2 False
     = Inr seg
     \<and> image_size seg = (4, 4)
     \<and> getpixel seg (1, 1) = 1 \<and> getpixel seg (3, 3) = 3"
proof -
  have "\<exists>seg. build_segmentation_map \<lparr>astype_int32_out_of_range = (\<lambda>_. 2147483648)\<rparr>
       \<lparr>polygon_covers = (\<lambda>xy x y. xy ! 0 \<le> x \<and> x \<le> xy ! 2 \<and> xy ! 1 \<le> y \<and> y \<le> xy ! 5)\<rparr>
       \<lparr>image_size = (8, 8), image_rows = replicate 8 (replicate 8 0)\<rparr>
       [ClassifiedObjectMarkup [0, 0, 6, 0, 6, 6, 0, 6] 2, ObjectMarkup [2, 2, 4, 2, 4, 4, 2, 4]] 2 False
     = Inr seg
     \<and> image_size seg = (4, 4)
     \<and> (\<forall>y < 4. \<forall>x < 4. getpixel seg (x, y) =
           (case find (\<lambda>m. polygon_covers
                   \<lparr>polygon_covers = (\<lambda>xy x y. xy ! 0 \<le> x \<and> x \<le> xy ! 2 \<and> xy ! 1 \<le> y \<and> y \<le> xy ! 5)\<rparr>
                   (polygon_xy \<lparr>astype_int32_out_of_range = (\<lambda>_. 2147483648)\<rparr> 2 m) (int x) (int y))
                 (rev [ClassifiedObjectMarkup [0, 0, 6, 0, 6, 6, 0, 6] 2,
                       ObjectMarkup [2, 2, 4, 2, 4, 4, 2, 4]]) of
              None \<Rightarrow> 0
            | Some m \<Rightarrow> spec_fill_value False m))"
    using build_segmentation_map_fill [of
       "\<lparr>image_size = (8, 8), image_rows = replicate 8 (replicate 8 0)\<rparr>" 8 8 2
       "[ClassifiedObjectMarkup [0, 0, 6, 0, 6, 6, 0, 6] 2, ObjectMarkup [2, 2, 4, 2, 4, 4, 2, 4]]"
       "\<lparr>astype_int32_out_of_range = (\<lambda>_. 2147483648)\<rparr>" False
       "\<lparr>polygon_covers = (\<lambda>xy x y. xy ! 0 \<le> x \<and> x \<le> xy ! 2 \<and> xy ! 1 \<le> y \<and> y \<le> xy ! 5)\<rparr>"]
    by (simp add: drawn_bbox_square_a drawn_bbox_square_b spec_fill_value_def)
  then obtain seg where seg: "build_segmentation_map \<lparr>astype_int32_out_of_range = (\<lambda>_. 2147483648)\<rparr>
       \<lparr>polygon_covers = (\<lambda>xy x y. xy ! 0 \<le> x \<and> x \<le> xy ! 2 \<and> xy ! 1 \<le> y \<and> y \<le> xy ! 5)\<rparr>
       \<lparr>image_size = (8, 8), image_rows = replicate 8 (replicate 8 0)\<rparr>
       [ClassifiedObjectMarkup [0, 0, 6, 0, 6, 6, 0, 6] 2, ObjectMarkup [2, 2, 4, 2, 4, 4, 2, 4]] 2 False
     = Inr seg" "image_size seg = (4, 4)"
     and pix: "\<And>x y. y < 4 \<Longrightarrow> x < 4 \<Longrightarrow> getpixel seg (x, y) =
           (case find (\<lambda>m. polygon_covers
                   \<lparr>polygon_covers = (\<lambda>xy x y. xy ! 0 \<le> x \<and> x \<le> xy ! 2 \<and> xy ! 1 \<le> y \<and> y \<le> xy ! 5)\<rparr>
                   (polygon_xy \<lparr>astype_int32_out_of_range = (\<lambda>_. 2147483648)\<rparr> 2 m) (int x) (int y))
                 (rev [ClassifiedObjectMarkup [0, 0, 6, 0, 6, 6, 0, 6] 2,
                       ObjectMarkup [2, 2, 4, 2, 4, 4, 2, 4]]) of
              None \<Rightarrow> 0
            | Some m \<Rightarrow> spec_fill_value False m)"
    by blast
  have "getpixel seg (1, 1) = 1" "getpixel seg (3, 3) = 3"
    using pix[of 1 1] pix[of 3 3]
    by (simp_all add: polygon_xy_def drawn_bbox_square_a drawn_bbox_square_b spec_fill_value_def)
  with seg show ?thesis by blast
qed

section \<open>Properties of the probability normalisation\<close>

lemma Max_shift:
  assumes "logits \<noteq> []"
  shows "Max (set (map (\<lambda>l. l + c) logits)) = Max (set logits) + (c::rat)"
proof -
  have "mono (\<lambda>l. l + c)" by (simp add: mono_def)
  from mono_Max_commute[OF this, of "set logits"] assms
  show ?thesis by simp
qed

lemma np_softmax_shift: "np_softmax np (map (\<lambda>l. l + c) logits) = np_softmax np logits"
proof (cases "logits = []")
  case True
  then show ?thesis by (simp add: np_softmax_def)
next
  case False
  define m where "m = Max (set logits)"
  have m': "Max (set (map (\<lambda>l. l + c) logits)) = m + c"
    unfolding m_def using False by (rule Max_shift)
  have x: "map (\<lambda>l. if finite64 (l - (m + c)) then np_exp np (fl64 (l - (m + c))) else 0)
             (map (\<lambda>l. l + c) logits)
         = map (\<lambda>l. if finite64 (l - m) then np_exp np (fl64 (l - m)) else 0) logits"
    by simp
  show ?thesis
    using False unfolding np_softmax_def m' m_def[symmetric] Let_def x by simp
qed

lemma round_half_even_nonpos: "y \<le> 0 \<Longrightarrow> round_half_even y \<le> 0"
proof -
  assume y: "y \<le> 0"
  have f: "of_int \<lfloor>y\<rfloor> \<le> y" "y < of_int \<lfloor>y\<rfloor> + 1" by linarith+
  have f0: "\<lfloor>y\<rfloor> \<le> 0" using y by (simp add: floor_le_iff)
  show ?thesis
  proof (cases "\<lfloor>y\<rfloor> = 0")
    case True
    with f y have "y = 0" by simp
    then show ?thesis by (simp add: round_half_even_def)
  next
    case False
    with f0 have "\<lfloor>y\<rfloor> + 1 \<le> 0" by linarith
    with f0 show ?thesis by (simp add: round_half_even_def Let_def)
  qed
qed

lemma fl64_nonpos: "x \<le> 0 \<Longrightarrow> fl64 x \<le> 0"
  by (auto simp: fl64_def Let_def mult_le_0_iff divide_le_0_iff intro!: round_half_even_nonpos)

lemma fl64_abs_err:
  assumes "0 \<le> z" "z \<le> 2 ^ 11"
  shows "\<bar>fl64 z - z\<bar> \<le> 1 / 2 ^ 41"
proof (cases "z = 0")
  case True
  then show ?thesis by (simp add: fl64_def)
next
  case False
  with assms have "0 < z" by simp
  from fl64_err[OF this] half_ulp_min_small
  have "\<bar>fl64 z - z\<bar> \<le> z / 2 ^ 53 + 1 / 2 ^ 64" by linarith
  moreover have "z / 2 ^ 53 \<le> 2 ^ 11 / 2 ^ 53" using assms(2) by (intro divide_right_mono) simp_all
  ultimately show ?thesis by simp
qed

lemma leaves_nonempty: "leaves t \<noteq> []"
  by (induction t) simp_all

lemma sum_in_order_err:
  assumes "\<forall>i \<in> set (leaves t). i < length xs"
    and "\<forall>e \<in> set xs. 0 \<le> e \<and> e \<le> 1"
    and "length (leaves t) \<le> 1024"
  shows "\<exists>v. sum_in_order xs t = Num v \<and> 0 \<le> v
       \<and> 0 \<le> sum_list (map ((!) xs) (leaves t))
       \<and> sum_list (map ((!) xs) (leaves t)) \<le> of_nat (length (leaves t))
       \<and> \<bar>v - sum_list (map ((!) xs) (leaves t))\<bar>
            \<le> (of_nat (length (leaves t)) - 1) / 2 ^ 41"
  using assms
proof (induction t)
  case (Elem i)
  then have "i < length xs" by simp
  then have "xs ! i \<in> set xs" by simp
  with Elem.prems(2) have "0 \<le> xs ! i" "xs ! i \<le> 1" by auto
  then show ?case using \<open>i < length xs\<close> by simp
next
  case (Add a b)
  define la where "la = length (leaves a)"
  define lb where "lb = length (leaves b)"
  define sa where "sa = sum_list (map ((!) xs) (leaves a))"
  define sb where "sb = sum_list (map ((!) xs) (leaves b))"
  have l: "la + lb \<le> 1024" "1 \<le> la" "1 \<le> lb"
    using Add.prems(3) leaves_nonempty[of a] leaves_nonempty[of b]
    by (simp_all add: la_def lb_def Suc_le_eq)
  have "\<exists>v. sum_in_order xs a = Num v \<and> 0 \<le> v \<and> 0 \<le> sa \<and> sa \<le> of_nat la
          \<and> \<bar>v - sa\<bar> \<le> (of_nat la - 1) / 2 ^ 41"
    using Add.IH(1) Add.prems l by (simp add: la_def sa_def)
  then obtain ea where va: "sum_in_order xs a = Num ea"
    and ia: "0 \<le> ea" "0 \<le> sa" "sa \<le> of_nat la" "\<bar>ea - sa\<bar> \<le> (of_nat la - 1) / 2 ^ 41"
    by blast
  have "\<exists>v. sum_in_order xs b = Num v \<and> 0 \<le> v \<and> 0 \<le> sb \<and> sb \<le> of_nat lb
          \<and> \<bar>v - sb\<bar> \<le> (of_nat lb - 1) / 2 ^ 41"
    using Add.IH(2) Add.prems l by (simp add: lb_def sb_def)
  then obtain eb where vb: "sum_in_order xs b = Num eb"
    and ib: "0 \<le> eb" "0 \<le> sb" "sb \<le> of_nat lb" "\<bar>eb - sb\<bar> \<le> (of_nat lb - 1) / 2 ^ 41"
    by blast
  have lr: "(of_nat la :: rat) + of_nat lb \<le> 1024" "(1::rat) \<le> of_nat la" "(1::rat) \<le> of_nat lb"
  proof -
    have "(of_nat (la + lb) :: rat) \<le> of_nat 1024" using l(1) by (simp only: of_nat_le_iff)
    then show "(of_nat la :: rat) + of_nat lb \<le> 1024" by simp
    have "(of_nat 1 :: rat) \<le> of_nat la" "(of_nat 1 :: rat) \<le> of_nat lb"
      using l(2,3) by (simp_all only: of_nat_le_iff)
    then show "(1::rat) \<le> of_nat la" "(1::rat) \<le> of_nat lb" by simp_all
  qed
  have z0: "0 \<le> ea + eb" using ia(1) ib(1) by simp
  define na :: rat where "na = of_nat la"
  define nb :: rat where "nb = of_nat lb"
  define da :: rat where "da = (na - 1) / 2 ^ 41"
  define db :: rat where "db = (nb - 1) / 2 ^ 41"
  have n: "na + nb \<le> 1024" "1 \<le> na" "1 \<le> nb" using lr by (simp_all add: na_def nb_def)
  have d: "da \<le> na" "db \<le> nb"
    using n(2,3) by (simp_all add: da_def db_def field_simps)
  have ea: "\<bar>ea - sa\<bar> \<le> da" and eb: "\<bar>eb - sb\<bar> \<le> db"
    and s: "sa \<le> na" "sb \<le> nb"
    using ia(3,4) ib(3,4) by (simp_all add: da_def db_def na_def nb_def)
  have "ea - sa \<le> da" "eb - sb \<le> db"
    using ea eb by (simp_all add: abs_le_iff)
  then have "ea + eb \<le> 2 * na + 2 * nb"
    using s d by linarith
  then have z11: "ea + eb \<le> 2 ^ 11" using n(1) by simp
  note r = fl64_abs_err[OF z0 z11]
  have split: "da + db + 1 / 2 ^ 41 = (na + nb - 1) / (2 ^ 41 :: rat)"
    by (simp add: da_def db_def field_simps)
  have "\<bar>fl64 (ea + eb) - (sa + sb)\<bar> \<le> da + db + 1 / 2 ^ 41"
    using r ea eb by linarith
  then have "\<bar>fl64 (ea + eb) - (sa + sb)\<bar> \<le> (of_nat la + of_nat lb - 1) / 2 ^ 41"
    by (simp only: split na_def nb_def)
  moreover have "0 \<le> fl64 (ea + eb)" by (rule fl64_nonneg[OF z0])
  moreover have "finite64 (ea + eb)"
    using z0 z11 by (intro finite64_bounded(1)) simp_all
  then have "sum_in_order xs (Add a b) = Num (fl64 (ea + eb))"
    by (simp add: va vb float64_of_def)
  ultimately show ?case
    using ia(2,3) ib(2,3)
    by (simp add: la_def[symmetric] lb_def[symmetric] sa_def[symmetric] sb_def[symmetric])
qed

lemma sum_list_ge_member:
  "(\<forall>e \<in> set xs. (0::rat) \<le> e) \<Longrightarrow> v \<in> set xs \<Longrightarrow> v \<le> sum_list xs"
proof (induction xs)
  case Nil
  then show ?case by simp
next
  case (Cons a xs)
  have nn: "0 \<le> sum_list xs" using Cons.prems(1) by (intro sum_list_nonneg) simp
  show ?case
  proof (cases "v = a")
    case True
    then show ?thesis using nn by simp
  next
    case False
    with Cons.prems have "v \<in> set xs" "\<forall>e \<in> set xs. 0 \<le> e" by simp_all
    from Cons.IH[OF this(2,1)] Cons.prems(1) show ?thesis by simp
  qed
qed

lemma sum_list_divide: "sum_list (map (\<lambda>e. e / s) xs) = sum_list xs / (s::rat)"
  by (induction xs) (simp_all add: add_divide_distrib)

lemma fl64_err_nonneg:
  assumes "0 \<le> q"
  shows "\<bar>fl64 q - q\<bar> \<le> q / 2 ^ 53 + 1 / 2 ^ 64"
proof (cases "q = 0")
  case True
  then show ?thesis by (simp add: fl64_def)
next
  case False
  with assms have "0 < q" by simp
  from fl64_err[OF this] half_ulp_min_small show ?thesis by linarith
qed

lemma sum_list_fl64_err:
  assumes "\<forall>q \<in> set qs. 0 \<le> q"
  shows "\<bar>sum_list (map fl64 qs) - sum_list qs\<bar> \<le> sum_list qs / 2 ^ 53 + of_nat (length qs) / 2 ^ 64"
  using assms
proof (induction qs)
  case Nil
  then show ?case by simp
next
  case (Cons q qs)
  define n :: rat where "n = of_nat (length qs)"
  define A where "A = sum_list (map fl64 qs)"
  define B where "B = sum_list qs"
  from Cons have ih: "\<bar>A - B\<bar> \<le> B / 2 ^ 53 + n / 2 ^ 64"
    by (simp add: A_def B_def n_def)
  from Cons.prems have "0 \<le> q" by simp
  from fl64_err_nonneg[OF this] have q: "\<bar>fl64 q - q\<bar> \<le> q / 2 ^ 53 + 1 / 2 ^ 64" .
  have "\<bar>(fl64 q + A) - (q + B)\<bar> \<le> \<bar>fl64 q - q\<bar> + \<bar>A - B\<bar>" by linarith
  also have "\<dots> \<le> (q / 2 ^ 53 + 1 / 2 ^ 64) + (B / 2 ^ 53 + n / 2 ^ 64)"
    using q ih by linarith
  also have "\<dots> = (q + B) / 2 ^ 53 + (n + 1) / 2 ^ 64"
    by (simp add: add_divide_distrib)
  finally show ?case
    by (simp add: A_def B_def n_def add.commute)
qed

lemma perm_order_sum:
  assumes "sort (leaves t) = [0..<length xs]"
  shows "sum_list (map ((!) xs) (leaves t)) = sum_list (xs :: rat list)"
    and "\<forall>i \<in> set (leaves t). i < length xs"
    and "length (leaves t) = length xs"
proof -
  have "mset (sort (leaves t)) = mset (leaves t)" by simp
  then have m: "mset (leaves t) = mset [0..<length xs]"
    by (simp only: assms)
  have "sum_list (map ((!) xs) (leaves t)) = sum_mset (image_mset ((!) xs) (mset (leaves t)))"
    by (simp flip: sum_mset_sum_list)
  also have "\<dots> = sum_list (map ((!) xs) [0..<length xs])"
    unfolding m by (simp flip: sum_mset_sum_list)
  also have "\<dots> = sum_list xs" by (simp add: map_nth)
  finally show "sum_list (map ((!) xs) (leaves t)) = sum_list xs" .
  have "set (leaves t) = set [0..<length xs]" using m by (rule mset_eq_setD)
  then show "\<forall>i \<in> set (leaves t). i < length xs" by simp
  show "length (leaves t) = length xs" using m by (metis length_upt mset_eq_length minus_nat.diff_0)
qed

lemma sum_list_le_length:
  "(\<forall>e \<in> set xs. e \<le> (1::rat)) \<Longrightarrow> sum_list xs \<le> of_nat (length xs)"
  by (induction xs) (simp_all add: add_mono)

lemma finite64_0: "finite64 0"
  by (simp add: finite64_def fl64_def)

lemma np_softmax_sum:
  assumes ne: "logits \<noteq> []" and len: "length logits \<le> 1024"
    and exp0: "np_exp np 0 = 1"
    and exp01: "\<forall>x \<le> 0. 0 \<le> np_exp np x \<and> np_exp np x \<le> 1"
    and order: "sort (leaves (np_sum_order np (length logits))) = [0..<length logits]"
  shows "\<exists>ps. np_softmax np logits = Inr (map Some ps) \<and> length ps = length logits
          \<and> (\<forall>p \<in> set ps. 0 \<le> p) \<and> \<bar>sum_list ps - 1\<bar> \<le> 1 / 2 ^ 30"
proof -
  define m where "m = Max (set logits)"
  define x where "x = map (\<lambda>l. if finite64 (l - m) then np_exp np (fl64 (l - m)) else 0) logits"
  define T where "T = sum_list x"
  have lx: "length x = length logits" by (simp add: x_def)
  have xne: "x \<noteq> []" using ne by (simp add: x_def)
  have x01: "\<forall>e \<in> set x. 0 \<le> e \<and> e \<le> 1"
  proof
    fix e assume "e \<in> set x"
    then obtain l where l: "l \<in> set logits"
      and e: "e = (if finite64 (l - m) then np_exp np (fl64 (l - m)) else 0)"
      by (auto simp: x_def)
    have "l \<le> m" unfolding m_def using l by (intro Max_ge) simp_all
    then have "fl64 (l - m) \<le> 0" by (intro fl64_nonpos) simp
    with exp01 show "0 \<le> e \<and> e \<le> 1" by (simp add: e)
  qed
  have one: "1 \<in> set x"
  proof -
    have "m \<in> set logits" unfolding m_def using ne by (intro Max_in) simp_all
    then have "(if finite64 (m - m) then np_exp np (fl64 (m - m)) else 0) \<in> set x"
      unfolding x_def by (intro imageI[where f = "\<lambda>l. if finite64 (l - m) then np_exp np (fl64 (l - m)) else 0", 
            of m "set logits", simplified set_map[symmetric]])
    then show ?thesis by (simp add: finite64_0 fl64_def exp0)
  qed
  have T1: "1 \<le> T" unfolding T_def using x01 one by (intro sum_list_ge_member) auto
  have "T \<le> of_nat (length x)" unfolding T_def using x01 by (intro sum_list_le_length) auto
  have order': "sort (leaves (np_sum_order np (length x))) = [0..<length x]"
    using order by (simp add: lx)
  note po = perm_order_sum[OF order']
  have Sdef: "np_sum np x = sum_in_order x (np_sum_order np (length x))"
    using xne by (simp add: np_sum_def)
  have len': "length (leaves (np_sum_order np (length x))) \<le> 1024"
    using po(3) len lx by simp
  from sum_in_order_err[OF po(2) x01 len']
  obtain S where SNum: "np_sum np x = Num S"
    and err: "\<bar>S - T\<bar> \<le> (of_nat (length x) - 1) / 2 ^ 41"
    by (auto simp: Sdef po(1) po(3) T_def)
  have "(of_nat (length x) :: rat) \<le> of_nat 1024" using len lx by (simp only: of_nat_le_iff)
  then have "(of_nat (length x) - 1) / 2 ^ 41 \<le> (1023 :: rat) / 2 ^ 41"
    by (intro divide_right_mono) simp_all
  with err have err': "\<bar>S - T\<bar> \<le> 1023 / 2 ^ 41" by linarith
  have "(1023 :: rat) / 2 ^ 41 \<le> 1 / 2" by simp
  with err' T1 have S12: "1 / 2 \<le> S" by linarith
  then have S0: "0 < S" by simp
  have q: "0 \<le> e / S \<and> e / S \<le> 2" if "e \<in> set x" for e
  proof -
    from that x01 have e: "0 \<le> e" "e \<le> 1" by auto
    have "e / S \<le> 1 / (1 / 2)" using e S12 by (intro frac_le) simp_all
    then show ?thesis using e S0 by simp
  qed
  have fin: "finite64 (e / S)" if "e \<in> set x" for e
    using q[OF that] by (intro finite64_bounded(1)) simp_all
  define ps where "ps = map (\<lambda>e. fl64 (e / S)) x"
  have "np_softmax np logits = Inr (map (\<lambda>e. finite_div e (np_sum np x)) x)"
    unfolding np_softmax_def Let_def m_def[symmetric] x_def[symmetric]
    using ne by (simp only: if_False)
  also have "map (\<lambda>e. finite_div e (np_sum np x)) x = map (\<lambda>e. Some (fl64 (e / S))) x"
    using S0 fin by (simp add: SNum)
  also have "map (\<lambda>e. Some (fl64 (e / S))) x = map Some ps"
    by (simp add: ps_def)
  finally have out: "np_softmax np logits = Inr (map Some ps)" .
  have pos: "\<forall>p \<in> set ps. 0 \<le> p"
    using q by (auto simp: ps_def intro!: fl64_nonneg)
  define Q where "Q = T / S"
  have Qs: "sum_list (map (\<lambda>e. e / S) x) = Q" by (simp add: sum_list_divide T_def Q_def)
  have "\<bar>sum_list (map fl64 (map (\<lambda>e. e / S) x)) - sum_list (map (\<lambda>e. e / S) x)\<bar>
          \<le> sum_list (map (\<lambda>e. e / S) x) / 2 ^ 53 + of_nat (length (map (\<lambda>e. e / S) x)) / 2 ^ 64"
    using q by (intro sum_list_fl64_err) auto
  then have e1: "\<bar>sum_list ps - Q\<bar> \<le> Q / 2 ^ 53 + of_nat (length x) / 2 ^ 64"
    by (simp add: Qs ps_def comp_def)
  have "(of_nat (length x) :: rat) / 2 ^ 64 \<le> 1024 / 2 ^ 64"
    using \<open>(of_nat (length x) :: rat) \<le> of_nat 1024\<close> by (intro divide_right_mono) simp_all
  with e1 have e1': "\<bar>sum_list ps - Q\<bar> \<le> Q / 2 ^ 53 + 1024 / 2 ^ 64" by linarith
  have "Q - 1 = (T - S) / S" using S0 by (simp add: Q_def field_simps)
  then have "\<bar>Q - 1\<bar> = \<bar>T - S\<bar> / S" using S0 by simp
  also have "\<dots> \<le> (1023 / 2 ^ 41) / (1 / 2)"
    using err' S12 by (intro frac_le) (simp_all add: abs_minus_commute)
  finally have e2: "\<bar>Q - 1\<bar> \<le> 1023 / 2 ^ 40" by simp
  have "(1023 :: rat) / 2 ^ 40 \<le> 1" by simp
  with e2 have "Q \<le> 2" by linarith
  then have "Q / 2 ^ 53 \<le> 2 / 2 ^ 53" by (intro divide_right_mono) simp_all
  with e1' e2 have "\<bar>sum_list ps - 1\<bar> \<le> 2 / 2 ^ 53 + 1024 / 2 ^ 64 + 1023 / 2 ^ 40" by linarith
  moreover have "(2 :: rat) / 2 ^ 53 + 1024 / 2 ^ 64 + 1023 / 2 ^ 40 \<le> 1 / 2 ^ 30" by simp
  ultimately have "\<bar>sum_list ps - 1\<bar> \<le> 1 / 2 ^ 30" by linarith
  with out pos show ?thesis by (intro exI[of _ ps]) (simp add: ps_def lx)
qed

text \<open>
  C8. Adding the same constant to every score of a vector, the shifted scores being
  the exact sums, leaves the output of \<open>np_softmax\<close> unchanged, whatever \<open>np.exp\<close> and the
  order of summation are: the maximum moves by the same constant and the differences do
  not change. And for a non-empty vector of at most 1024 scores (the code supports no
  more than 255 classes), when \<open>np.exp\<close> maps 0 to 1 and a non-positive float into the
  interval from 0 to 1, and the summation adds each position once, the outputs are
  finite and non-negative and their exact sum differs from 1 by at most \<open>1 / 2 ^ 30\<close>.
\<close>

theorem np_softmax_sum_and_shift:
  "np_softmax np (map (\<lambda>l. l + c) logits) = np_softmax np logits
   \<and> (logits \<noteq> [] \<and> length logits \<le> 1024
        \<and> np_exp np 0 = 1 \<and> (\<forall>x \<le> 0. 0 \<le> np_exp np x \<and> np_exp np x \<le> 1)
        \<and> sort (leaves (np_sum_order np (length logits))) = [0..<length logits]
       \<longrightarrow> (\<exists>ps. np_softmax np logits = Inr (map Some ps) \<and> length ps = length logits
                 \<and> (\<forall>p \<in> set ps. 0 \<le> p) \<and> \<bar>sum_list ps - 1\<bar> \<le> 1 / 2 ^ 30))"
  using np_softmax_shift[of np c logits] np_softmax_sum[of logits np] by blast

theorem np_softmax_sum_and_shift_witness:
  "np_softmax \<lparr>np_exp = (\<lambda>x. if x = 0 then 1 else 1 / 2),
               np_sum_order = (\<lambda>n. Add (Add (Elem 0) (Elem 1)) (Elem 2))\<rparr>
      (map (\<lambda>l. l + 10) [1, 2, 3])
   = np_softmax \<lparr>np_exp = (\<lambda>x. if x = 0 then 1 else 1 / 2),
               np_sum_order = (\<lambda>n. Add (Add (Elem 0) (Elem 1)) (Elem 2))\<rparr> [1, 2, 3]
   \<and> (\<exists>ps. np_softmax \<lparr>np_exp = (\<lambda>x. if x = 0 then 1 else 1 / 2),
               np_sum_order = (\<lambda>n. Add (Add (Elem 0) (Elem 1)) (Elem 2))\<rparr> [1, 2, 3]
             = Inr (map Some ps) \<and> length ps = 3
           \<and> (\<forall>p \<in> set ps. 0 \<le> p) \<and> \<bar>sum_list ps - 1\<bar> \<le> 1 / 2 ^ 30)"
proof -
  have contract: "\<forall>x \<le> 0. 0 \<le> (if x = 0 then 1 else 1 / 2 :: rat)
      \<and> (if x = 0 then 1 else 1 / 2 :: rat) \<le> 1"
    by simp
  show ?thesis
    using np_softmax_sum_and_shift [of
       "\<lparr>np_exp = (\<lambda>x. if x = 0 then 1 else 1 / 2),
         np_sum_order = (\<lambda>n. Add (Add (Elem 0) (Elem 1)) (Elem 2))\<rparr>" 10 "[1, 2, 3]"]
      contract
    by (simp (no_asm_use) add: upt_rec) (simp add: numeral_3_eq_3)
qed

end
